theory Spec2Isabelle
  imports Main "HOL-Library.AList" "HOL-Library.Sublist"
begin

section \<open>Node model\<close>

text \<open>
  The two dataclasses of \<^verbatim>\<open>ssml.py\<close>: \<^verbatim>\<open>SSMLText(text)\<close> and
  \<^verbatim>\<open>SSMLTag(name, attributes, children)\<close>. A Python \<^verbatim>\<open>dict\<close> keeps its keys in
  insertion order; it is an association list here, written only through
  \<^const>\<open>AList.update\<close>, which overwrites the value of a key that is present in place and
  appends a new key at the end, as \<^verbatim>\<open>attrs[k] = v\<close> does.

  A Python \<^verbatim>\<open>str\<close> is a sequence of code points. The model takes the code points below
  256, the type \<^typ>\<open>char\<close>.
\<close>

datatype SSMLNode =
    is_SSMLText: SSMLText (node_text: string)
  | is_SSMLTag: SSMLTag (node_name: string) (node_attributes: "(string \<times> string) list")
      (node_children: "SSMLNode list")

text \<open>
  Every \<^verbatim>\<open>raise\<close> of the source raises \<^verbatim>\<open>ValueError(message)\<close>. The interpreter raises
  \<^verbatim>\<open>RecursionError\<close> at a call that would nest the calls deeper than its limit.
\<close>

datatype error = ValueError string | RecursionError

section \<open>Python string primitives\<close>

text \<open>
  \<^verbatim>\<open>str.isspace\<close> on one character, for the code points below 256: TAB, LF, VT, FF, CR,
  the separators FS, GS, RS, US, the space, NEL (0x85) and the no-break space (0xA0).
\<close>

definition isspace :: "char \<Rightarrow> bool" where
  "isspace c = (c \<in> set [CHR 0x09, CHR 0x0A, CHR 0x0B, CHR 0x0C, CHR 0x0D,
                          CHR 0x1C, CHR 0x1D, CHR 0x1E, CHR 0x1F, CHR 0x20,
                          CHR 0x85, CHR 0xA0])"

text \<open>
  \<^verbatim>\<open>text.replace(old, new)\<close>: every occurrence of \<open>old\<close>, found from left to right without
  overlap, becomes \<open>new\<close>. With an empty \<open>old\<close> Python puts \<open>new\<close> before every character and
  at the end.
\<close>

fun replace :: "string \<Rightarrow> string \<Rightarrow> string \<Rightarrow> string" where
  "replace old new [] = (if old = [] then new else [])"
| "replace old new (c # cs) =
     (if old = [] then new @ c # replace old new cs
      else if prefix old (c # cs) then new @ replace old new (drop (length old - 1) cs)
      else c # replace old new cs)"

text \<open>\<^verbatim>\<open>"{}".format(n)\<close> for a non-negative integer: its decimal digits.\<close>

fun str_nat :: "nat \<Rightarrow> string" where
  "str_nat n =
     (if n < 10 then [char_of (48 + n)] else str_nat (n div 10) @ [char_of (48 + n mod 10)])"

declare str_nat.simps [simp del]

section \<open>Entity codec\<close>

definition unescapeXMLChars :: "string \<Rightarrow> string" where
  "unescapeXMLChars t = replace ''&amp;'' ''&'' (replace ''&gt;'' ''>'' (replace ''&lt;'' ''<'' t))"

definition escapeXMLChars :: "string \<Rightarrow> string" where
  "escapeXMLChars t = replace ''&'' ''&amp;'' (replace ''>'' ''&gt;'' (replace ''<'' ''&lt;'' t))"

section \<open>Parser\<close>

text \<open>
  The parser object holds the text, its length and the cursor \<^verbatim>\<open>self.pos\<close>. Every method
  takes the text and the cursor and returns the new cursor with its result; a method that
  raises returns \<open>Inl\<close> of the error. The definitions of this section leave out the bound of
  the Python interpreter on the depth of recursion, which a deeply nested input reaches; the
  methods with the bound follow in their own section.
\<close>

definition current_char :: "string \<Rightarrow> nat \<Rightarrow> string" where
  "current_char inp pos = (if pos < length inp then [inp ! pos] else [])"

definition startswith :: "string \<Rightarrow> nat \<Rightarrow> string \<Rightarrow> bool" where
  "startswith inp pos s = (take (length s) (drop pos inp) = s)"

text \<open>\<^verbatim>\<open>self.text[start:stop]\<close> with \<open>start \<le> stop\<close>.\<close>

definition slice :: "string \<Rightarrow> nat \<Rightarrow> nat \<Rightarrow> string" where
  "slice inp start stop = take (stop - start) (drop start inp)"

text \<open>
  The scanning loop that the source writes five times,
  \<^verbatim>\<open>while self.pos < self.length and P(self.text[self.pos]): self.pos += 1\<close>.
\<close>

function advance_while :: "(char \<Rightarrow> bool) \<Rightarrow> string \<Rightarrow> nat \<Rightarrow> nat" where
  "advance_while P inp pos =
     (if pos < length inp \<and> P (inp ! pos) then advance_while P inp (pos + 1) else pos)"
  by pat_completeness auto
termination
  by (relation "measure (\<lambda>(P, inp, pos). length inp - pos)") auto

declare advance_while.simps [simp del]

definition skip_whitespace :: "string \<Rightarrow> nat \<Rightarrow> nat" where
  "skip_whitespace inp pos = advance_while isspace inp pos"

definition parse_tag_name :: "string \<Rightarrow> nat \<Rightarrow> error + (string \<times> nat)" where
  "parse_tag_name inp pos =
     (let start = pos;
          pos = advance_while (\<lambda>c. \<not> isspace c \<and> c \<notin> set [CHR ''/'', CHR ''>'']) inp pos
      in if start = pos
         then Inl (ValueError (''Expected tag name at position '' @ str_nat pos))
         else Inr (slice inp start pos, pos))"

definition parse_attr_name :: "string \<Rightarrow> nat \<Rightarrow> error + (string \<times> nat)" where
  "parse_attr_name inp pos =
     (let start = pos;
          pos = advance_while
                  (\<lambda>c. \<not> isspace c \<and> c \<notin> set [CHR ''='', CHR ''/'', CHR ''>'']) inp pos
      in if start = pos
         then Inl (ValueError (''Expected attribute name at position '' @ str_nat pos))
         else Inr (slice inp start pos, pos))"

definition parse_attr_value :: "string \<Rightarrow> nat \<Rightarrow> error + (string \<times> nat)" where
  "parse_attr_value inp pos =
     (if pos \<ge> length inp
      then Inl (ValueError (''Expected attribute value at position '' @ str_nat pos))
      else if current_char inp pos \<noteq> [CHR 0x22]
      then Inl (ValueError
                 (''Expected double quote for attribute value at position '' @ str_nat pos))
      else
        let start = pos + 1;
            pos = advance_while (\<lambda>c. [c] \<noteq> [CHR 0x22]) inp start
        in if pos \<ge> length inp
           then Inl (ValueError
                      (''Attribute value not closed starting at position '' @ str_nat start))
           else Inr (unescapeXMLChars (slice inp start pos), pos + 1))"

definition parse_text :: "string \<Rightarrow> nat \<Rightarrow> SSMLNode \<times> nat" where
  "parse_text inp pos =
     (let start = pos;
          pos = advance_while (\<lambda>c. [c] \<noteq> ''<'') inp pos
      in (SSMLText (unescapeXMLChars (slice inp start pos)), pos))"

subsection \<open>Cursor facts of the scanning loops\<close>

lemma advance_while_ge: "pos \<le> advance_while P inp pos"
  by (induction P inp pos rule: advance_while.induct) (subst advance_while.simps, auto)

lemma advance_while_le: "pos \<le> length inp \<Longrightarrow> advance_while P inp pos \<le> length inp"
  by (induction P inp pos rule: advance_while.induct) (subst advance_while.simps, auto)

lemma advance_while_beyond: "length inp \<le> pos \<Longrightarrow> advance_while P inp pos = pos"
  by (subst advance_while.simps) simp

lemma advance_while_stop:
  "advance_while P inp pos < length inp \<Longrightarrow> \<not> P (inp ! advance_while P inp pos)"
proof (induction P inp pos rule: advance_while.induct)
  case (1 P inp pos)
  show ?case
  proof (cases "pos < length inp \<and> P (inp ! pos)")
    case True
    then have eq: "advance_while P inp pos = advance_while P inp (pos + 1)"
      by (subst advance_while.simps) simp
    with 1 True show ?thesis by simp
  next
    case False
    then have eq: "advance_while P inp pos = pos"
      by (subst advance_while.simps) auto
    with 1 False show ?thesis by simp
  qed
qed

lemma skip_whitespace_ge: "pos \<le> skip_whitespace inp pos"
  by (simp add: skip_whitespace_def advance_while_ge)

lemma parse_attr_name_progress:
  assumes "parse_attr_name inp pos = Inr (n, q)"
  shows "pos < q \<and> q \<le> length inp"
proof -
  let ?q = "advance_while (\<lambda>c. \<not> isspace c \<and> c \<notin> set [CHR ''='', CHR ''/'', CHR ''>'']) inp pos"
  from assms have ne: "pos \<noteq> ?q" and q: "q = ?q"
    by (auto simp: parse_attr_name_def Let_def split: if_splits)
  have "pos \<le> ?q" by (rule advance_while_ge)
  moreover have "pos < length inp"
    using ne advance_while_beyond[of inp pos] by (metis not_le_imp_less)
  then have "?q \<le> length inp" by (simp add: advance_while_le)
  ultimately show ?thesis using ne q by simp
qed

lemma parse_attr_value_progress:
  assumes "parse_attr_value inp pos = Inr (v, q)"
  shows "pos < q \<and> q \<le> length inp"
  using assms advance_while_ge[of "pos + 1" "\<lambda>c. [c] \<noteq> [CHR 0x22]" inp]
  by (auto simp: parse_attr_value_def Let_def split: if_splits)

lemma parse_tag_name_progress:
  assumes "parse_tag_name inp pos = Inr (n, q)"
  shows "pos < q \<and> q \<le> length inp"
proof -
  let ?q = "advance_while (\<lambda>c. \<not> isspace c \<and> c \<notin> set [CHR ''/'', CHR ''>'']) inp pos"
  from assms have ne: "pos \<noteq> ?q" and q: "q = ?q"
    by (auto simp: parse_tag_name_def Let_def split: if_splits)
  have "pos \<le> ?q" by (rule advance_while_ge)
  moreover have "pos < length inp"
    using ne advance_while_beyond[of inp pos] by (metis not_le_imp_less)
  then have "?q \<le> length inp" by (simp add: advance_while_le)
  ultimately show ?thesis using ne q by simp
qed

lemma parse_text_progress:
  assumes "parse_text inp pos = (t, q)" "pos < length inp" "current_char inp pos \<noteq> ''<''"
  shows "pos < q \<and> q \<le> length inp"
proof -
  let ?P = "\<lambda>c. [c] \<noteq> ''<''"
  from assms(1) have q: "q = advance_while ?P inp pos"
    by (auto simp: parse_text_def Let_def)
  from assms(2,3) have "advance_while ?P inp pos = advance_while ?P inp (pos + 1)"
    by (subst advance_while.simps) (simp add: current_char_def)
  then have "pos < q" using advance_while_ge[of "pos + 1" ?P inp] q by simp
  moreover have "q \<le> length inp" using q assms(2) by (simp add: advance_while_le)
  ultimately show ?thesis by simp
qed

text \<open>
  \<^verbatim>\<open>parse_attributes\<close>: the \<^verbatim>\<open>while True\<close> loop, with the dictionary \<^verbatim>\<open>attrs\<close> built so far as
  an argument; the caller starts it with the empty dictionary.
\<close>

function parse_attributes :: "string \<Rightarrow> nat \<Rightarrow> (string \<times> string) list \<Rightarrow> error + ((string \<times> string) list \<times> nat)" where
  "parse_attributes inp pos attrs =
     (let pos = skip_whitespace inp pos in
      if pos \<ge> length inp \<or> current_char inp pos \<in> set [''/'', ''>''] then Inr (attrs, pos)
      else
        (case parse_attr_name inp pos of
          Inl e \<Rightarrow> Inl e
        | Inr (attr_name, pos) \<Rightarrow>
            let pos = skip_whitespace inp pos in
            if pos \<ge> length inp \<or> current_char inp pos \<noteq> ''=''
            then Inl (ValueError (''Expected '=' after attribute name at position '' @ str_nat pos))
            else
              let pos = skip_whitespace inp (pos + 1) in
              (case parse_attr_value inp pos of
                Inl e \<Rightarrow> Inl e
              | Inr (attr_value, pos) \<Rightarrow>
                  parse_attributes inp pos (AList.update attr_name attr_value attrs))))"
  by pat_completeness auto
termination
proof (relation "measure (\<lambda>(inp, pos, attrs). length inp - pos)", goal_cases)
  case 1
  show ?case by simp
next
  case (2 inp pos attrs p1 x2 attr_name p2 p3 p4 x2a attr_value p5)
  then show ?case 
    using skip_whitespace_ge[of pos inp] skip_whitespace_ge[of p2 inp] skip_whitespace_ge[of "p3 + 1" inp]
      parse_attr_name_progress[of inp p1 attr_name p2]
      parse_attr_value_progress[of inp p4 attr_value p5]
    by auto
qed

declare parse_attributes.simps [simp del]

lemma parse_attributes_stop:
  "length inp \<le> skip_whitespace inp pos \<or> current_char inp (skip_whitespace inp pos) \<in> set [''/'', ''>'']
   \<Longrightarrow> parse_attributes inp pos attrs = Inr (attrs, skip_whitespace inp pos)"
  by (subst parse_attributes.simps) (simp add: Let_def)

lemma parse_attributes_name_error:
  "\<not> (length inp \<le> skip_whitespace inp pos \<or> current_char inp (skip_whitespace inp pos) \<in> set [''/'', ''>''])
   \<Longrightarrow> parse_attr_name inp (skip_whitespace inp pos) = Inl e
   \<Longrightarrow> parse_attributes inp pos attrs = Inl e"
  by (subst parse_attributes.simps) (simp add: Let_def)

lemma parse_attributes_eq_error:
  "\<not> (length inp \<le> skip_whitespace inp pos \<or> current_char inp (skip_whitespace inp pos) \<in> set [''/'', ''>''])
   \<Longrightarrow> parse_attr_name inp (skip_whitespace inp pos) = Inr (attr_name, p2)
   \<Longrightarrow> length inp \<le> skip_whitespace inp p2 \<or> current_char inp (skip_whitespace inp p2) \<noteq> ''=''
   \<Longrightarrow> parse_attributes inp pos attrs =
         Inl (ValueError (''Expected '=' after attribute name at position ''
                            @ str_nat (skip_whitespace inp p2)))"
  by (subst parse_attributes.simps) (simp add: Let_def)

lemma parse_attributes_value_error:
  "\<not> (length inp \<le> skip_whitespace inp pos \<or> current_char inp (skip_whitespace inp pos) \<in> set [''/'', ''>''])
   \<Longrightarrow> parse_attr_name inp (skip_whitespace inp pos) = Inr (attr_name, p2)
   \<Longrightarrow> \<not> (length inp \<le> skip_whitespace inp p2 \<or> current_char inp (skip_whitespace inp p2) \<noteq> ''='')
   \<Longrightarrow> parse_attr_value inp (skip_whitespace inp (skip_whitespace inp p2 + 1)) = Inl e
   \<Longrightarrow> parse_attributes inp pos attrs = Inl e"
  by (subst parse_attributes.simps) (simp add: Let_def)

lemma parse_attributes_step:
  "\<not> (length inp \<le> skip_whitespace inp pos \<or> current_char inp (skip_whitespace inp pos) \<in> set [''/'', ''>''])
   \<Longrightarrow> parse_attr_name inp (skip_whitespace inp pos) = Inr (attr_name, p2)
   \<Longrightarrow> \<not> (length inp \<le> skip_whitespace inp p2 \<or> current_char inp (skip_whitespace inp p2) \<noteq> ''='')
   \<Longrightarrow> parse_attr_value inp (skip_whitespace inp (skip_whitespace inp p2 + 1)) = Inr (attr_value, p5)
   \<Longrightarrow> parse_attributes inp pos attrs =
         parse_attributes inp p5 (AList.update attr_name attr_value attrs)"
  by (subst parse_attributes.simps) (simp add: Let_def)

lemma parse_attributes_ge:
  "parse_attributes inp pos attrs = Inr (r, q) \<Longrightarrow> pos \<le> q"
proof (induction inp pos attrs rule: parse_attributes.induct)
  case (1 inp pos attrs)
  let ?p1 = "skip_whitespace inp pos"
  have p1: "pos \<le> ?p1" by (rule skip_whitespace_ge)
  show ?case
  proof (cases "length inp \<le> ?p1 \<or> current_char inp ?p1 \<in> set [''/'', ''>'']")
    case True
    from parse_attributes_stop[OF True, of attrs] "1.prems" p1 show ?thesis by simp
  next
    case stop: False
    show ?thesis
    proof (cases "parse_attr_name inp ?p1")
      case (Inl e)
      from parse_attributes_name_error[OF stop Inl, of attrs] "1.prems" show ?thesis by simp
    next
      case (Inr b)
      obtain attr_name p2 where b: "b = (attr_name, p2)" by (cases b)
      note nm = Inr[unfolded b]
      let ?p3 = "skip_whitespace inp p2"
      show ?thesis
      proof (cases "length inp \<le> ?p3 \<or> current_char inp ?p3 \<noteq> ''=''")
        case True
        from parse_attributes_eq_error[OF stop nm True, of attrs] "1.prems" show ?thesis by simp
      next
        case eq: False
        let ?p4 = "skip_whitespace inp (?p3 + 1)"
        show ?thesis
        proof (cases "parse_attr_value inp ?p4")
          case (Inl e)
          from parse_attributes_value_error[OF stop nm eq Inl, of attrs] "1.prems"
          show ?thesis by simp
        next
          case (Inr c)
          obtain attr_value p5 where c: "c = (attr_value, p5)" by (cases c)
          note vl = Inr[unfolded c]
          from parse_attributes_step[OF stop nm eq vl, of attrs] "1.prems"
          have rec: "parse_attributes inp p5 (AList.update attr_name attr_value attrs) = Inr (r, q)"
            by simp
          have "p5 \<le> q"
            by (rule "1.IH"[OF refl stop nm refl refl eq refl vl refl rec])
          moreover have "?p1 < p2" using parse_attr_name_progress[OF nm] by simp
          moreover have "?p4 < p5" using parse_attr_value_progress[OF vl] by simp
          moreover have "p2 \<le> ?p3" "?p3 + 1 \<le> ?p4" by (rule skip_whitespace_ge)+
          ultimately show ?thesis using p1 by linarith
        qed
      qed
    qed
  qed
qed

text \<open>
  \<^verbatim>\<open>parse_element\<close> and \<^verbatim>\<open>parse_children\<close> call each other. The list \<^verbatim>\<open>children\<close> of the
  loop in \<^verbatim>\<open>parse_children\<close> is an argument, empty at the call, and \<^verbatim>\<open>append\<close> adds at its end.
\<close>

function (domintros) parse_element :: "string \<Rightarrow> nat \<Rightarrow> error + (SSMLNode \<times> nat)"
  and parse_children :: "string \<Rightarrow> nat \<Rightarrow> string \<Rightarrow> SSMLNode list \<Rightarrow> error + (SSMLNode list \<times> nat)"
where
  "parse_element inp pos =
     (if current_char inp pos \<noteq> ''<''
      then Inl (ValueError (''Expected '<' at position '' @ str_nat pos))
      else
        let pos = skip_whitespace inp (pos + 1) in
        (case parse_tag_name inp pos of
           Inl e \<Rightarrow> Inl e
         | Inr (tag_name, pos) \<Rightarrow>
             let pos = skip_whitespace inp pos in
             (case parse_attributes inp pos [] of
                Inl e \<Rightarrow> Inl e
              | Inr (attributes, pos) \<Rightarrow>
                  let pos = skip_whitespace inp pos in
                  if startswith inp pos ''/>''
                  then Inr (SSMLTag tag_name attributes [], pos + 2)
                  else if current_char inp pos = ''>''
                  then (case parse_children inp (pos + 1) tag_name [] of
                          Inl e \<Rightarrow> Inl e
                        | Inr (children, pos) \<Rightarrow> Inr (SSMLTag tag_name attributes children, pos))
                  else Inl (ValueError (''Malformed tag at position '' @ str_nat pos
                                          @ '': expected '>' or '/>'' @ [CHR 0x27])))))"
| "parse_children inp pos tag_name children =
     (if pos \<ge> length inp
      then Inl (ValueError (''Missing closing tag for <'' @ tag_name @ ''>''))
      else if startswith inp pos ''</''
      then
        let pos = skip_whitespace inp (pos + 2) in
        (case parse_tag_name inp pos of
           Inl e \<Rightarrow> Inl e
         | Inr (closing_tag, pos) \<Rightarrow>
             let pos = skip_whitespace inp pos in
             if pos \<ge> length inp \<or> current_char inp pos \<noteq> ''>''
             then Inl (ValueError (''Expected '>' at end of closing tag at position ''
                                     @ str_nat pos))
             else if closing_tag \<noteq> tag_name
             then Inl (ValueError (''Mismatched closing tag: expected </'' @ tag_name
                                     @ ''> but found </'' @ closing_tag @ ''>''))
             else Inr (children, pos + 1))
      else if current_char inp pos = ''<''
      then (case parse_element inp pos of
              Inl e \<Rightarrow> Inl e
            | Inr (child, pos) \<Rightarrow> parse_children inp pos tag_name (children @ [child]))
      else (case parse_text inp pos of
              (text_node, pos) \<Rightarrow> parse_children inp pos tag_name (children @ [text_node])))"
  by pat_completeness auto


lemma startswith_length: "startswith inp pos s \<Longrightarrow> s \<noteq> [] \<Longrightarrow> pos + length s \<le> length inp"
proof -
  assume a: "startswith inp pos s" and ne: "s \<noteq> []"
  then have "length (take (length s) (drop pos inp)) = length s"
    by (simp add: startswith_def)
  then have "length s \<le> length inp - pos" by simp
  moreover have "pos < length inp"
  proof (rule ccontr)
    assume "\<not> pos < length inp"
    then have "drop pos inp = []" by simp
    with a ne show False by (simp add: startswith_def)
  qed
  ultimately show ?thesis by simp
qed

lemma current_char_lt: "current_char inp pos = [c] \<Longrightarrow> pos < length inp"
  by (simp add: current_char_def split: if_splits)

lemma progress_partial:
  "parse_element_parse_children_dom (Inl (inp, pos)) \<Longrightarrow>
     (\<forall>n q. parse_element inp pos = Inr (n, q) \<longrightarrow> pos < q \<and> q \<le> length inp)"
  "parse_element_parse_children_dom (Inr (inp, pos, tag_name, children)) \<Longrightarrow>
     (\<forall>r q. parse_children inp pos tag_name children = Inr (r, q) \<longrightarrow> pos < q \<and> q \<le> length inp)"
proof (induction rule: parse_element_parse_children.pinduct)
  case (1 inp pos)
  note unf = parse_element.psimps[OF 1(1)]
  show ?case
  proof (intro allI impI)
    fix n q
    assume r: "parse_element inp pos = Inr (n, q)"
    let ?p1 = "skip_whitespace inp (pos + 1)"
    have lt: "current_char inp pos = ''<''"
    proof (rule ccontr)
      assume "current_char inp pos \<noteq> ''<''"
      with r show False by (simp add: unf)
    qed
    then have nlt: "\<not> current_char inp pos \<noteq> ''<''" by simp
    show "pos < q \<and> q \<le> length inp"
    proof (cases "parse_tag_name inp ?p1")
      case (Inl e)
      with r lt show ?thesis by (simp add: unf Let_def)
    next
      case (Inr b)
      obtain tn p2 where b: "b = (tn, p2)" by (cases b)
      note tn = Inr[unfolded b]
      let ?p3 = "skip_whitespace inp p2"
      show ?thesis
      proof (cases "parse_attributes inp ?p3 []")
        case (Inl e)
        with r lt tn show ?thesis by (simp add: unf Let_def)
      next
        case (Inr c)
        obtain at p4 where c: "c = (at, p4)" by (cases c)
        note at = Inr[unfolded c]
        let ?p5 = "skip_whitespace inp p4"
        have ord: "pos + 1 \<le> ?p1" "?p1 < p2" "p2 \<le> ?p3" "?p3 \<le> p4" "p4 \<le> ?p5"
          using skip_whitespace_ge parse_tag_name_progress[OF tn] parse_attributes_ge[OF at]
          by simp_all
        show ?thesis
        proof (cases "startswith inp ?p5 ''/>''")
          case True
          with r lt tn at have "q = ?p5 + 2" by (simp add: unf Let_def)
          moreover have "?p5 + 2 \<le> length inp" using startswith_length[OF True] by simp
          ultimately show ?thesis using ord by linarith
        next
          case sc: False
          show ?thesis
          proof (cases "current_char inp ?p5 = ''>''")
            case False
            with r lt tn at sc show ?thesis by (simp add: unf Let_def)
          next
            case gt: True
            show ?thesis
            proof (cases "parse_children inp (?p5 + 1) tn []")
              case (Inl e)
              with r lt tn at sc gt show ?thesis by (simp add: unf Let_def)
            next
              case (Inr d)
              obtain cs p6 where d: "d = (cs, p6)" by (cases d)
              note ch = Inr[unfolded d]
              from r lt tn at sc gt ch have "q = p6" by (simp add: unf Let_def)
              moreover from 1(2)[OF nlt refl tn refl refl at refl refl sc gt] ch
              have "?p5 + 1 < p6 \<and> p6 \<le> length inp" by blast
              ultimately show ?thesis using ord by linarith
            qed
          qed
        qed
      qed
    qed
  qed
next
  case (2 inp pos tag_name children)
  note unf = parse_children.psimps[OF 2(1)]
  show ?case
  proof (intro allI impI)
    fix r q
    assume r: "parse_children inp pos tag_name children = Inr (r, q)"
    have inb: "\<not> length inp \<le> pos"
    proof
      assume "length inp \<le> pos"
      with r show False by (simp add: unf)
    qed
    show "pos < q \<and> q \<le> length inp"
    proof (cases "startswith inp pos ''</''")
      case True
      let ?p1 = "skip_whitespace inp (pos + 2)"
      show ?thesis
      proof (cases "parse_tag_name inp ?p1")
        case (Inl e)
        with r inb True show ?thesis by (simp add: unf Let_def)
      next
        case (Inr b)
        obtain ct p2 where b: "b = (ct, p2)" by (cases b)
        note tn = Inr[unfolded b]
        let ?p3 = "skip_whitespace inp p2"
        have ord: "pos + 2 \<le> ?p1" "?p1 < p2" "p2 \<le> ?p3"
          using skip_whitespace_ge parse_tag_name_progress[OF tn] by simp_all
        from r inb True tn have "\<not> length inp \<le> ?p3 \<and> q = ?p3 + 1"
          by (simp add: unf Let_def split: if_splits)
        with ord show ?thesis by linarith
      qed
    next
      case False
      show ?thesis
      proof (cases "current_char inp pos = ''<''")
        case True
        show ?thesis
        proof (cases "parse_element inp pos")
          case (Inl e)
          with r inb False True show ?thesis by (simp add: unf)
        next
          case (Inr b)
          obtain child p' where b: "b = (child, p')" by (cases b)
          note el = Inr[unfolded b]
          from r inb False True el
          have rec: "parse_children inp p' tag_name (children @ [child]) = Inr (r, q)"
            by (simp add: unf)
          from 2(2)[OF inb False True] el have "pos < p'" by blast
          moreover from 2(3)[OF inb False True el refl] rec
          have "p' < q \<and> q \<le> length inp" by blast
          ultimately show ?thesis by linarith
        qed
      next
        case nlt: False
        obtain tnode p' where tx: "parse_text inp pos = (tnode, p')"
          by (cases "parse_text inp pos")
        with r inb False nlt
        have rec: "parse_children inp p' tag_name (children @ [tnode]) = Inr (r, q)"
          by (simp add: unf)
        from inb have "pos < length inp" by simp
        from parse_text_progress[OF tx this nlt] have "pos < p'" by simp
        moreover from 2(4)[OF inb False nlt tx[symmetric]] rec
        have "p' < q \<and> q \<le> length inp" by blast
        ultimately show ?thesis by linarith
      qed
    qed
  qed
qed

termination parse_element
proof (relation "measure (\<lambda>x. case x of
          Inl (inp, pos) \<Rightarrow> 2 * (length inp - pos)
        | Inr (inp, pos, tag_name, children) \<Rightarrow> 2 * (length inp - pos) + 1)", goal_cases)
  case 1
  show ?case by simp
next
  case (2 inp pos p1 b tn p2 p3 ba at p4 p5)
  then have tn: "parse_tag_name inp (skip_whitespace inp (pos + 1)) = Inr (tn, p2)"
    and at: "parse_attributes inp (skip_whitespace inp p2) [] = Inr (at, p4)"
    and gt: "current_char inp (skip_whitespace inp p4) = ''>''" and p5: "p5 = skip_whitespace inp p4"
    by simp_all
  have "pos + 1 \<le> skip_whitespace inp (pos + 1)" "skip_whitespace inp (pos + 1) < p2"
       "p2 \<le> skip_whitespace inp p2" "skip_whitespace inp p2 \<le> p4" "p4 \<le> p5"
    using skip_whitespace_ge parse_tag_name_progress[OF tn] parse_attributes_ge[OF at] p5
    by simp_all
  moreover have "p5 < length inp" using current_char_lt[OF gt] p5 by simp
  ultimately show ?case by simp
next
  case (3 inp pos tag_name children)
  then show ?case by simp
next
  case (4 inp pos tag_name children b child p')
  then have el: "parse_element inp pos = Inr (child, p')"
    and dom: "parse_element_parse_children_dom (Inl (inp, pos))" by simp_all
  from progress_partial(1)[OF dom] el have "pos < p'" by blast
  with 4 show ?case by simp
next
  case (5 inp pos tag_name children tnode p')
  then have "pos < p'" using parse_text_progress[of inp pos tnode p'] by simp
  with 5 show ?case by simp
qed

declare parse_element.simps [simp del] parse_children.simps [simp del]

text \<open>Every argument is in the domain of the recursion: no chain of recursive calls is infinite.\<close>

lemma dom_total:
  "parse_element_parse_children_dom (Inl (inp, pos))"
  "parse_element_parse_children_dom (Inr (inp, pos, tag_name, children))"
proof (induction inp pos and inp pos tag_name children rule: parse_element_parse_children.induct)
  case (1 inp pos)
  show ?case
  proof (rule parse_element_parse_children.domintros(1))
    fix tn p2 at p4
    assume "current_char inp pos = ''<''"
      "parse_tag_name inp (skip_whitespace inp (Suc pos)) = Inr (tn, p2)"
      "parse_attributes inp (skip_whitespace inp p2) [] = Inr (at, p4)"
      "\<not> startswith inp (skip_whitespace inp p4) ''/>''"
      "current_char inp (skip_whitespace inp p4) = ''>''"
    then show "parse_element_parse_children_dom (Inr (inp, Suc (skip_whitespace inp p4), tn, []))"
      using 1[OF _ refl _ refl refl _ refl refl] by simp
  qed
next
  case (2 inp pos tag_name children)
  show ?case
  proof (rule parse_element_parse_children.domintros(2))
    assume "\<not> length inp \<le> pos" "\<not> startswith inp pos ''</''" "current_char inp pos = ''<''"
    then show "parse_element_parse_children_dom (Inl (inp, pos))" by (rule 2(1))
  next
    fix child p'
    assume "\<not> length inp \<le> pos" "\<not> startswith inp pos ''</''" "current_char inp pos = ''<''"
      "parse_element inp pos = Inr (child, p')"
    then show "parse_element_parse_children_dom (Inr (inp, p', tag_name, children @ [child]))"
      using 2(2)[OF _ _ _ _ refl] by simp
  next
    fix tnode p'
    assume "\<not> length inp \<le> pos" "\<not> startswith inp pos ''</''" "current_char inp pos \<noteq> ''<''"
      "(tnode, p') = parse_text inp pos"
    then show "parse_element_parse_children_dom (Inr (inp, p', tag_name, children @ [tnode]))"
      by (rule 2(3))
  qed
qed

subsection \<open>The branches of \<open>parse_element\<close> and \<open>parse_children\<close>\<close>

lemma parse_element_not_lt:
  "current_char inp pos \<noteq> ''<'' \<Longrightarrow>
   parse_element inp pos = Inl (ValueError (''Expected '<' at position '' @ str_nat pos))"
  by (subst parse_element.simps) simp

lemma parse_element_name_error:
  "current_char inp pos = ''<'' \<Longrightarrow>
   parse_tag_name inp (skip_whitespace inp (pos + 1)) = Inl e \<Longrightarrow>
   parse_element inp pos = Inl e"
  by (subst parse_element.simps) (simp add: Let_def)

lemma parse_element_attr_error:
  "current_char inp pos = ''<'' \<Longrightarrow>
   parse_tag_name inp (skip_whitespace inp (pos + 1)) = Inr (tn, p2) \<Longrightarrow>
   parse_attributes inp (skip_whitespace inp p2) [] = Inl e \<Longrightarrow>
   parse_element inp pos = Inl e"
  by (subst parse_element.simps) (simp add: Let_def)

lemma parse_element_selfclose:
  "current_char inp pos = ''<'' \<Longrightarrow>
   parse_tag_name inp (skip_whitespace inp (pos + 1)) = Inr (tn, p2) \<Longrightarrow>
   parse_attributes inp (skip_whitespace inp p2) [] = Inr (at, p4) \<Longrightarrow>
   startswith inp (skip_whitespace inp p4) ''/>'' \<Longrightarrow>
   parse_element inp pos = Inr (SSMLTag tn at [], skip_whitespace inp p4 + 2)"
  by (subst parse_element.simps) (simp add: Let_def)

lemma parse_element_open:
  "current_char inp pos = ''<'' \<Longrightarrow>
   parse_tag_name inp (skip_whitespace inp (pos + 1)) = Inr (tn, p2) \<Longrightarrow>
   parse_attributes inp (skip_whitespace inp p2) [] = Inr (at, p4) \<Longrightarrow>
   \<not> startswith inp (skip_whitespace inp p4) ''/>'' \<Longrightarrow>
   current_char inp (skip_whitespace inp p4) = ''>'' \<Longrightarrow>
   parse_element inp pos =
     (case parse_children inp (skip_whitespace inp p4 + 1) tn [] of
        Inl e \<Rightarrow> Inl e
      | Inr (cs, q) \<Rightarrow> Inr (SSMLTag tn at cs, q))"
  by (subst parse_element.simps) (simp add: Let_def)

lemma parse_element_malformed:
  "current_char inp pos = ''<'' \<Longrightarrow>
   parse_tag_name inp (skip_whitespace inp (pos + 1)) = Inr (tn, p2) \<Longrightarrow>
   parse_attributes inp (skip_whitespace inp p2) [] = Inr (at, p4) \<Longrightarrow>
   \<not> startswith inp (skip_whitespace inp p4) ''/>'' \<Longrightarrow>
   current_char inp (skip_whitespace inp p4) \<noteq> ''>'' \<Longrightarrow>
   parse_element inp pos =
     Inl (ValueError (''Malformed tag at position '' @ str_nat (skip_whitespace inp p4)
                        @ '': expected '>' or '/>'' @ [CHR 0x27]))"
  by (subst parse_element.simps) (simp add: Let_def)

lemma parse_children_eof:
  "length inp \<le> pos \<Longrightarrow>
   parse_children inp pos tag_name children =
     Inl (ValueError (''Missing closing tag for <'' @ tag_name @ ''>''))"
  by (subst parse_children.simps) simp

lemma parse_children_close_name_error:
  "\<not> length inp \<le> pos \<Longrightarrow> startswith inp pos ''</'' \<Longrightarrow>
   parse_tag_name inp (skip_whitespace inp (pos + 2)) = Inl e \<Longrightarrow>
   parse_children inp pos tag_name children = Inl e"
  by (subst parse_children.simps) (simp add: Let_def)

lemma parse_children_close:
  "\<not> length inp \<le> pos \<Longrightarrow> startswith inp pos ''</'' \<Longrightarrow>
   parse_tag_name inp (skip_whitespace inp (pos + 2)) = Inr (closing_tag, p2) \<Longrightarrow>
   parse_children inp pos tag_name children =
     (if length inp \<le> skip_whitespace inp p2 \<or> current_char inp (skip_whitespace inp p2) \<noteq> ''>''
      then Inl (ValueError (''Expected '>' at end of closing tag at position ''
                              @ str_nat (skip_whitespace inp p2)))
      else if closing_tag \<noteq> tag_name
      then Inl (ValueError (''Mismatched closing tag: expected </'' @ tag_name
                              @ ''> but found </'' @ closing_tag @ ''>''))
      else Inr (children, skip_whitespace inp p2 + 1))"
  by (subst parse_children.simps) (simp add: Let_def)

lemma parse_children_element:
  "\<not> length inp \<le> pos \<Longrightarrow> \<not> startswith inp pos ''</'' \<Longrightarrow> current_char inp pos = ''<'' \<Longrightarrow>
   parse_children inp pos tag_name children =
     (case parse_element inp pos of
        Inl e \<Rightarrow> Inl e
      | Inr (child, p') \<Rightarrow> parse_children inp p' tag_name (children @ [child]))"
  by (subst parse_children.simps) simp

lemma parse_children_text:
  "\<not> length inp \<le> pos \<Longrightarrow> \<not> startswith inp pos ''</'' \<Longrightarrow> current_char inp pos \<noteq> ''<'' \<Longrightarrow>
   parse_text inp pos = (text_node, p') \<Longrightarrow>
   parse_children inp pos tag_name children =
     parse_children inp p' tag_name (children @ [text_node])"
  by (subst parse_children.simps) simp

subsection \<open>Case rules\<close>

lemma parse_attributes_cases [case_names stop name_error eq_error value_error step]:
  obtains
    (stop) "length inp \<le> skip_whitespace inp pos \<or>
            current_char inp (skip_whitespace inp pos) \<in> set [''/'', ''>'']"
      "parse_attributes inp pos attrs = Inr (attrs, skip_whitespace inp pos)"
  | (name_error) e where
      "\<not> (length inp \<le> skip_whitespace inp pos \<or>
           current_char inp (skip_whitespace inp pos) \<in> set [''/'', ''>''])"
      "parse_attr_name inp (skip_whitespace inp pos) = Inl e"
      "parse_attributes inp pos attrs = Inl e"
  | (eq_error) attr_name p2 where
      "\<not> (length inp \<le> skip_whitespace inp pos \<or>
           current_char inp (skip_whitespace inp pos) \<in> set [''/'', ''>''])"
      "parse_attr_name inp (skip_whitespace inp pos) = Inr (attr_name, p2)"
      "length inp \<le> skip_whitespace inp p2 \<or> current_char inp (skip_whitespace inp p2) \<noteq> ''=''"
      "parse_attributes inp pos attrs =
         Inl (ValueError (''Expected '=' after attribute name at position ''
                            @ str_nat (skip_whitespace inp p2)))"
  | (value_error) attr_name p2 e where
      "\<not> (length inp \<le> skip_whitespace inp pos \<or>
           current_char inp (skip_whitespace inp pos) \<in> set [''/'', ''>''])"
      "parse_attr_name inp (skip_whitespace inp pos) = Inr (attr_name, p2)"
      "\<not> (length inp \<le> skip_whitespace inp p2 \<or> current_char inp (skip_whitespace inp p2) \<noteq> ''='')"
      "parse_attr_value inp (skip_whitespace inp (skip_whitespace inp p2 + 1)) = Inl e"
      "parse_attributes inp pos attrs = Inl e"
  | (step) attr_name p2 attr_value p5 where
      "\<not> (length inp \<le> skip_whitespace inp pos \<or>
           current_char inp (skip_whitespace inp pos) \<in> set [''/'', ''>''])"
      "parse_attr_name inp (skip_whitespace inp pos) = Inr (attr_name, p2)"
      "\<not> (length inp \<le> skip_whitespace inp p2 \<or> current_char inp (skip_whitespace inp p2) \<noteq> ''='')"
      "parse_attr_value inp (skip_whitespace inp (skip_whitespace inp p2 + 1)) = Inr (attr_value, p5)"
      "parse_attributes inp pos attrs =
         parse_attributes inp p5 (AList.update attr_name attr_value attrs)"
proof (cases "length inp \<le> skip_whitespace inp pos \<or>
              current_char inp (skip_whitespace inp pos) \<in> set [''/'', ''>'']")
  case True
  then show ?thesis by (rule stop) (rule parse_attributes_stop[OF True])
next
  case go: False
  show ?thesis
  proof (cases "parse_attr_name inp (skip_whitespace inp pos)")
    case (Inl e)
    show ?thesis by (rule name_error[OF go Inl]) (rule parse_attributes_name_error[OF go Inl])
  next
    case (Inr b)
    obtain attr_name p2 where b: "b = (attr_name, p2)" by (cases b)
    note nm = Inr[unfolded b]
    show ?thesis
    proof (cases "length inp \<le> skip_whitespace inp p2 \<or>
                  current_char inp (skip_whitespace inp p2) \<noteq> ''=''")
      case True
      show ?thesis
        by (rule eq_error[OF go nm True]) (rule parse_attributes_eq_error[OF go nm True])
    next
      case eq: False
      show ?thesis
      proof (cases "parse_attr_value inp (skip_whitespace inp (skip_whitespace inp p2 + 1))")
        case (Inl e)
        show ?thesis
          by (rule value_error[OF go nm eq Inl])
             (rule parse_attributes_value_error[OF go nm eq Inl])
      next
        case (Inr c)
        obtain attr_value p5 where c: "c = (attr_value, p5)" by (cases c)
        note vl = Inr[unfolded c]
        show ?thesis
          by (rule step[OF go nm eq vl]) (rule parse_attributes_step[OF go nm eq vl])
      qed
    qed
  qed
qed

lemma parse_element_cases
  [case_names not_lt name_error attr_error selfclose malformed children_error children_ok]:
  obtains
    (not_lt) "current_char inp pos \<noteq> ''<''"
      "parse_element inp pos = Inl (ValueError (''Expected '<' at position '' @ str_nat pos))"
  | (name_error) e where
      "current_char inp pos = ''<''"
      "parse_tag_name inp (skip_whitespace inp (pos + 1)) = Inl e"
      "parse_element inp pos = Inl e"
  | (attr_error) tn p2 e where
      "current_char inp pos = ''<''"
      "parse_tag_name inp (skip_whitespace inp (pos + 1)) = Inr (tn, p2)"
      "parse_attributes inp (skip_whitespace inp p2) [] = Inl e"
      "parse_element inp pos = Inl e"
  | (selfclose) tn p2 at p4 where
      "current_char inp pos = ''<''"
      "parse_tag_name inp (skip_whitespace inp (pos + 1)) = Inr (tn, p2)"
      "parse_attributes inp (skip_whitespace inp p2) [] = Inr (at, p4)"
      "startswith inp (skip_whitespace inp p4) ''/>''"
      "parse_element inp pos = Inr (SSMLTag tn at [], skip_whitespace inp p4 + 2)"
  | (malformed) tn p2 at p4 where
      "current_char inp pos = ''<''"
      "parse_tag_name inp (skip_whitespace inp (pos + 1)) = Inr (tn, p2)"
      "parse_attributes inp (skip_whitespace inp p2) [] = Inr (at, p4)"
      "\<not> startswith inp (skip_whitespace inp p4) ''/>''"
      "current_char inp (skip_whitespace inp p4) \<noteq> ''>''"
      "parse_element inp pos =
         Inl (ValueError (''Malformed tag at position '' @ str_nat (skip_whitespace inp p4)
                            @ '': expected '>' or '/>'' @ [CHR 0x27]))"
  | (children_error) tn p2 at p4 e where
      "current_char inp pos = ''<''"
      "parse_tag_name inp (skip_whitespace inp (pos + 1)) = Inr (tn, p2)"
      "parse_attributes inp (skip_whitespace inp p2) [] = Inr (at, p4)"
      "\<not> startswith inp (skip_whitespace inp p4) ''/>''"
      "current_char inp (skip_whitespace inp p4) = ''>''"
      "parse_children inp (skip_whitespace inp p4 + 1) tn [] = Inl e"
      "parse_element inp pos = Inl e"
  | (children_ok) tn p2 at p4 cs q where
      "current_char inp pos = ''<''"
      "parse_tag_name inp (skip_whitespace inp (pos + 1)) = Inr (tn, p2)"
      "parse_attributes inp (skip_whitespace inp p2) [] = Inr (at, p4)"
      "\<not> startswith inp (skip_whitespace inp p4) ''/>''"
      "current_char inp (skip_whitespace inp p4) = ''>''"
      "parse_children inp (skip_whitespace inp p4 + 1) tn [] = Inr (cs, q)"
      "parse_element inp pos = Inr (SSMLTag tn at cs, q)"
proof (cases "current_char inp pos = ''<''")
  case False
  show ?thesis by (rule not_lt[OF False]) (rule parse_element_not_lt[OF False])
next
  case lt: True
  show ?thesis
  proof (cases "parse_tag_name inp (skip_whitespace inp (pos + 1))")
    case (Inl e)
    show ?thesis by (rule name_error[OF lt Inl]) (rule parse_element_name_error[OF lt Inl])
  next
    case (Inr b)
    obtain tn p2 where b: "b = (tn, p2)" by (cases b)
    note tn = Inr[unfolded b]
    show ?thesis
    proof (cases "parse_attributes inp (skip_whitespace inp p2) []")
      case (Inl e)
      show ?thesis
        by (rule attr_error[OF lt tn Inl]) (rule parse_element_attr_error[OF lt tn Inl])
    next
      case (Inr c)
      obtain at p4 where c: "c = (at, p4)" by (cases c)
      note at = Inr[unfolded c]
      show ?thesis
      proof (cases "startswith inp (skip_whitespace inp p4) ''/>''")
        case True
        show ?thesis
          by (rule selfclose[OF lt tn at True]) (rule parse_element_selfclose[OF lt tn at True])
      next
        case sc: False
        show ?thesis
        proof (cases "current_char inp (skip_whitespace inp p4) = ''>''")
          case False
          show ?thesis
            by (rule malformed[OF lt tn at sc False])
               (rule parse_element_malformed[OF lt tn at sc False])
        next
          case gt: True
          note unf = parse_element_open[OF lt tn at sc gt]
          show ?thesis
          proof (cases "parse_children inp (skip_whitespace inp p4 + 1) tn []")
            case (Inl e)
            show ?thesis
              by (rule children_error[OF lt tn at sc gt Inl]) (simp only: unf Inl sum.case)
          next
            case (Inr d)
            obtain cs q where d: "d = (cs, q)" by (cases d)
            note ch = Inr[unfolded d]
            show ?thesis
              by (rule children_ok[OF lt tn at sc gt ch]) (simp only: unf ch sum.case prod.case)
          qed
        qed
      qed
    qed
  qed
qed

lemma parse_children_cases
  [case_names eof close_name_error close_no_gt mismatch close_ok element_error element_ok text_run]:
  obtains
    (eof) "length inp \<le> pos"
      "parse_children inp pos tag_name children =
         Inl (ValueError (''Missing closing tag for <'' @ tag_name @ ''>''))"
  | (close_name_error) e where
      "\<not> length inp \<le> pos" "startswith inp pos ''</''"
      "parse_tag_name inp (skip_whitespace inp (pos + 2)) = Inl e"
      "parse_children inp pos tag_name children = Inl e"
  | (close_no_gt) closing_tag p2 where
      "\<not> length inp \<le> pos" "startswith inp pos ''</''"
      "parse_tag_name inp (skip_whitespace inp (pos + 2)) = Inr (closing_tag, p2)"
      "length inp \<le> skip_whitespace inp p2 \<or> current_char inp (skip_whitespace inp p2) \<noteq> ''>''"
      "parse_children inp pos tag_name children =
         Inl (ValueError (''Expected '>' at end of closing tag at position ''
                            @ str_nat (skip_whitespace inp p2)))"
  | (mismatch) closing_tag p2 where
      "\<not> length inp \<le> pos" "startswith inp pos ''</''"
      "parse_tag_name inp (skip_whitespace inp (pos + 2)) = Inr (closing_tag, p2)"
      "\<not> (length inp \<le> skip_whitespace inp p2 \<or> current_char inp (skip_whitespace inp p2) \<noteq> ''>'')"
      "closing_tag \<noteq> tag_name"
      "parse_children inp pos tag_name children =
         Inl (ValueError (''Mismatched closing tag: expected </'' @ tag_name
                            @ ''> but found </'' @ closing_tag @ ''>''))"
  | (close_ok) p2 where
      "\<not> length inp \<le> pos" "startswith inp pos ''</''"
      "parse_tag_name inp (skip_whitespace inp (pos + 2)) = Inr (tag_name, p2)"
      "\<not> (length inp \<le> skip_whitespace inp p2 \<or> current_char inp (skip_whitespace inp p2) \<noteq> ''>'')"
      "parse_children inp pos tag_name children = Inr (children, skip_whitespace inp p2 + 1)"
  | (element_error) e where
      "\<not> length inp \<le> pos" "\<not> startswith inp pos ''</''" "current_char inp pos = ''<''"
      "parse_element inp pos = Inl e"
      "parse_children inp pos tag_name children = Inl e"
  | (element_ok) child p' where
      "\<not> length inp \<le> pos" "\<not> startswith inp pos ''</''" "current_char inp pos = ''<''"
      "parse_element inp pos = Inr (child, p')"
      "parse_children inp pos tag_name children =
         parse_children inp p' tag_name (children @ [child])"
  | (text_run) text_node p' where
      "\<not> length inp \<le> pos" "\<not> startswith inp pos ''</''" "current_char inp pos \<noteq> ''<''"
      "parse_text inp pos = (text_node, p')"
      "parse_children inp pos tag_name children =
         parse_children inp p' tag_name (children @ [text_node])"
proof (cases "length inp \<le> pos")
  case True
  show ?thesis by (rule eof[OF True]) (rule parse_children_eof[OF True])
next
  case inb: False
  show ?thesis
  proof (cases "startswith inp pos ''</''")
    case cl: True
    show ?thesis
    proof (cases "parse_tag_name inp (skip_whitespace inp (pos + 2))")
      case (Inl e)
      show ?thesis
        by (rule close_name_error[OF inb cl Inl])
           (rule parse_children_close_name_error[OF inb cl Inl])
    next
      case (Inr b)
      obtain closing_tag p2 where b: "b = (closing_tag, p2)" by (cases b)
      note tn = Inr[unfolded b]
      note unf = parse_children_close[OF inb cl tn, of tag_name children]
      show ?thesis
      proof (cases "length inp \<le> skip_whitespace inp p2 \<or>
                    current_char inp (skip_whitespace inp p2) \<noteq> ''>''")
        case True
        show ?thesis by (rule close_no_gt[OF inb cl tn True]) (use True in \<open>simp add: unf\<close>)
      next
        case gt: False
        show ?thesis
        proof (cases "closing_tag = tag_name")
          case False
          show ?thesis
            by (rule mismatch[OF inb cl tn gt False]) (use gt False in \<open>simp add: unf\<close>)
        next
          case True
          show ?thesis
            by (rule close_ok[OF inb cl tn[unfolded True] gt]) (use gt True in \<open>simp add: unf\<close>)
        qed
      qed
    qed
  next
    case ncl: False
    show ?thesis
    proof (cases "current_char inp pos = ''<''")
      case lt: True
      note unf = parse_children_element[OF inb ncl lt, of tag_name children]
      show ?thesis
      proof (cases "parse_element inp pos")
        case (Inl e)
        show ?thesis by (rule element_error[OF inb ncl lt Inl]) (simp only: unf Inl sum.case)
      next
        case (Inr b)
        obtain child p' where b: "b = (child, p')" by (cases b)
        note el = Inr[unfolded b]
        show ?thesis by (rule element_ok[OF inb ncl lt el]) (simp only: unf el sum.case prod.case)
      qed
    next
      case nlt: False
      obtain text_node p' where tx: "parse_text inp pos = (text_node, p')"
        by (cases "parse_text inp pos")
      show ?thesis
        by (rule text_run[OF inb ncl nlt tx]) (rule parse_children_text[OF inb ncl nlt tx])
    qed
  qed
qed

text \<open>
  \<^verbatim>\<open>Parser.parse\<close>, and \<^verbatim>\<open>parseSSML\<close>, which builds a parser with the cursor at 0 and calls it.
\<close>

definition parse :: "string \<Rightarrow> error + SSMLNode" where
  "parse inp =
     (let pos = skip_whitespace inp 0 in
      if pos \<ge> length inp \<or> current_char inp pos \<noteq> ''<''
      then Inl (ValueError ''SSML must start with an opening tag'')
      else
        (case parse_element inp pos of
           Inl e \<Rightarrow> Inl e
         | Inr (node, pos) \<Rightarrow>
             let pos = skip_whitespace inp pos in
             if pos \<noteq> length inp
             then Inl (ValueError ''Extra content after root element'')
             else if \<not> (is_SSMLTag node \<and> node_name node = ''speak'')
             then Inl (ValueError ''Root element must be <speak>'')
             else Inr node))"

definition parseSSML :: "string \<Rightarrow> error + SSMLNode" where
  "parseSSML ssml = parse ssml"

section \<open>Serializer\<close>

text \<open>
  \<^verbatim>\<open>ssmlNodeToText\<close>. The last branch of the source, \<^verbatim>\<open>raise ValueError("Unknown node type")\<close>,
  is for a value that is neither dataclass; the datatype has no such value.
\<close>

fun ssmlNodeToText :: "SSMLNode \<Rightarrow> string" where
  "ssmlNodeToText (SSMLText t) = escapeXMLChars t"
| "ssmlNodeToText (SSMLTag name attributes children) =
     (let attrs = foldl (\<lambda>attrs (key, val).
                     attrs @ '' '' @ key @ ''='' @ [CHR 0x22] @ escapeXMLChars val @ [CHR 0x22])
                   [] attributes;
          children_str = concat (map ssmlNodeToText children)
      in ''<'' @ name @ attrs @ ''>'' @ children_str @ ''</'' @ name @ ''>'')"

section \<open>Parser under the recursion limit\<close>

text \<open>
  The interpreter bounds the depth to which calls of Python functions may nest; a call beyond
  the bound raises \<^verbatim>\<open>RecursionError\<close> in place of running the function. The source has no
  \<^verbatim>\<open>try\<close>, so the error ends the parse. The definitions above leave the bound out; the
  definitions of this section are the same methods with the bound. Their first argument \<open>fr\<close>
  is the number of calls that may still be nested inside the call of the method itself: a
  call made by the body of the method needs \<open>fr \<noteq> 0\<close>, and the method that is called
  gets \<open>fr - 1\<close>. The methods \<^verbatim>\<open>current_char\<close>, \<^verbatim>\<open>startswith\<close>, \<^verbatim>\<open>skip_whitespace\<close>,
  \<^verbatim>\<open>parse_tag_name\<close> and \<^verbatim>\<open>parse_attr_name\<close>, the function \<^verbatim>\<open>unescapeXMLChars\<close> and the
  constructors of the two dataclasses call no Python function of their own, so a call of one of
  them needs one free frame and nothing more; the built-in methods of \<^verbatim>\<open>str\<close> need none. Once
  a body has made one call, the calls that follow in the same body find the same free frame,
  so only the first call of a body can fail for lack of one.
\<close>

text \<open>
  \<^verbatim>\<open>parse_attr_value\<close> tests the end of the input before its first call,
  \<^verbatim>\<open>self.current_char()\<close>.
\<close>

definition parse_attr_value_lim :: "nat \<Rightarrow> string \<Rightarrow> nat \<Rightarrow> error + (string \<times> nat)" where
  "parse_attr_value_lim fr inp pos =
     (if pos \<ge> length inp
      then Inl (ValueError (''Expected attribute value at position '' @ str_nat pos))
      else if fr = 0 then Inl RecursionError
      else parse_attr_value inp pos)"

text \<open>\<^verbatim>\<open>parse_text\<close> calls \<^verbatim>\<open>current_char\<close>, \<^verbatim>\<open>unescapeXMLChars\<close> and \<^verbatim>\<open>SSMLText\<close>.\<close>

definition parse_text_lim :: "nat \<Rightarrow> string \<Rightarrow> nat \<Rightarrow> error + (SSMLNode \<times> nat)" where
  "parse_text_lim fr inp pos = (if fr = 0 then Inl RecursionError else Inr (parse_text inp pos))"

lemma parse_attr_value_lim_cases:
  "parse_attr_value_lim fr inp pos = Inl RecursionError \<or>
   parse_attr_value_lim fr inp pos = parse_attr_value inp pos"
  by (simp add: parse_attr_value_lim_def parse_attr_value_def)

text \<open>The first call of \<^verbatim>\<open>parse_attributes\<close> is \<^verbatim>\<open>self.skip_whitespace()\<close>.\<close>

function parse_attributes_lim :: "nat \<Rightarrow> string \<Rightarrow> nat \<Rightarrow> (string \<times> string) list \<Rightarrow> error + ((string \<times> string) list \<times> nat)" where
  "parse_attributes_lim fr inp pos attrs =
     (if fr = 0 then Inl RecursionError
      else
        let pos = skip_whitespace inp pos in
        if pos \<ge> length inp \<or> current_char inp pos \<in> set [''/'', ''>''] then Inr (attrs, pos)
        else
          (case parse_attr_name inp pos of
            Inl e \<Rightarrow> Inl e
          | Inr (attr_name, pos) \<Rightarrow>
              let pos = skip_whitespace inp pos in
              if pos \<ge> length inp \<or> current_char inp pos \<noteq> ''=''
              then Inl (ValueError (''Expected '=' after attribute name at position '' @ str_nat pos))
              else
                let pos = skip_whitespace inp (pos + 1) in
                (case parse_attr_value_lim (fr - 1) inp pos of
                  Inl e \<Rightarrow> Inl e
                | Inr (attr_value, pos) \<Rightarrow>
                    parse_attributes_lim fr inp pos (AList.update attr_name attr_value attrs))))"
  by pat_completeness auto
termination
proof (relation "measure (\<lambda>(fr, inp, pos, attrs). length inp - pos)", goal_cases)
  case 1
  show ?case by simp
next
  case (2 fr inp pos attrs p1 x2 attr_name p2 p3 p4 x2a attr_value p5)
  from 2 parse_attr_value_lim_cases[of "fr - 1" inp p4]
  have "parse_attr_value inp p4 = Inr (attr_value, p5)" by auto
  with 2 show ?case
    using skip_whitespace_ge[of pos inp] skip_whitespace_ge[of p2 inp] skip_whitespace_ge[of "p3 + 1" inp]
      parse_attr_name_progress[of inp p1 attr_name p2]
      parse_attr_value_progress[of inp p4 attr_value p5]
    by auto
qed

declare parse_attributes_lim.simps [simp del]

text \<open>
  The first call of \<^verbatim>\<open>parse_element\<close> is \<^verbatim>\<open>self.current_char()\<close>; \<^verbatim>\<open>parse_children\<close> tests the
  end of the input before its first call, \<^verbatim>\<open>self.startswith("</")\<close>.
\<close>

function (domintros) parse_element_lim :: "nat \<Rightarrow> string \<Rightarrow> nat \<Rightarrow> error + (SSMLNode \<times> nat)"
  and parse_children_lim :: "nat \<Rightarrow> string \<Rightarrow> nat \<Rightarrow> string \<Rightarrow> SSMLNode list \<Rightarrow> error + (SSMLNode list \<times> nat)"
where
  "parse_element_lim fr inp pos =
     (if fr = 0 then Inl RecursionError
      else if current_char inp pos \<noteq> ''<''
      then Inl (ValueError (''Expected '<' at position '' @ str_nat pos))
      else
        let pos = skip_whitespace inp (pos + 1) in
        (case parse_tag_name inp pos of
           Inl e \<Rightarrow> Inl e
         | Inr (tag_name, pos) \<Rightarrow>
             let pos = skip_whitespace inp pos in
             (case parse_attributes_lim (fr - 1) inp pos [] of
                Inl e \<Rightarrow> Inl e
              | Inr (attributes, pos) \<Rightarrow>
                  let pos = skip_whitespace inp pos in
                  if startswith inp pos ''/>''
                  then Inr (SSMLTag tag_name attributes [], pos + 2)
                  else if current_char inp pos = ''>''
                  then (case parse_children_lim (fr - 1) inp (pos + 1) tag_name [] of
                          Inl e \<Rightarrow> Inl e
                        | Inr (children, pos) \<Rightarrow> Inr (SSMLTag tag_name attributes children, pos))
                  else Inl (ValueError (''Malformed tag at position '' @ str_nat pos
                                          @ '': expected '>' or '/>'' @ [CHR 0x27])))))"
| "parse_children_lim fr inp pos tag_name children =
     (if pos \<ge> length inp
      then Inl (ValueError (''Missing closing tag for <'' @ tag_name @ ''>''))
      else if fr = 0 then Inl RecursionError
      else if startswith inp pos ''</''
      then
        let pos = skip_whitespace inp (pos + 2) in
        (case parse_tag_name inp pos of
           Inl e \<Rightarrow> Inl e
         | Inr (closing_tag, pos) \<Rightarrow>
             let pos = skip_whitespace inp pos in
             if pos \<ge> length inp \<or> current_char inp pos \<noteq> ''>''
             then Inl (ValueError (''Expected '>' at end of closing tag at position ''
                                     @ str_nat pos))
             else if closing_tag \<noteq> tag_name
             then Inl (ValueError (''Mismatched closing tag: expected </'' @ tag_name
                                     @ ''> but found </'' @ closing_tag @ ''>''))
             else Inr (children, pos + 1))
      else if current_char inp pos = ''<''
      then (case parse_element_lim (fr - 1) inp pos of
              Inl e \<Rightarrow> Inl e
            | Inr (child, pos) \<Rightarrow> parse_children_lim fr inp pos tag_name (children @ [child]))
      else (case parse_text_lim (fr - 1) inp pos of
              Inl e \<Rightarrow> Inl e
            | Inr (text_node, pos) \<Rightarrow>
                parse_children_lim fr inp pos tag_name (children @ [text_node])))"
  by pat_completeness auto

lemma parse_attributes_lim_refines:
  "parse_attributes_lim fr inp pos attrs = Inl RecursionError \<or>
   parse_attributes_lim fr inp pos attrs = parse_attributes inp pos attrs"
proof (induction fr inp pos attrs rule: parse_attributes_lim.induct)
  case (1 fr inp pos attrs)
  show ?case
  proof (cases "fr = 0")
    case True
    then show ?thesis by (subst parse_attributes_lim.simps) simp
  next
    case fr: False
    show ?thesis
    proof (cases rule: parse_attributes_cases[where inp = inp and pos = pos and attrs = attrs])
      case stop
      then show ?thesis using fr by (subst parse_attributes_lim.simps) (simp add: Let_def)
    next
      case (name_error e)
      then show ?thesis using fr by (subst parse_attributes_lim.simps) (simp add: Let_def)
    next
      case (eq_error attr_name p2)
      then show ?thesis using fr by (subst parse_attributes_lim.simps) (simp add: Let_def)
    next
      case (value_error attr_name p2 e)
      let ?p4 = "skip_whitespace inp (skip_whitespace inp p2 + 1)"
      have unf: "parse_attributes_lim fr inp pos attrs =
          (case parse_attr_value_lim (fr - 1) inp ?p4 of
             Inl e \<Rightarrow> Inl e
           | Inr (v, p) \<Rightarrow> parse_attributes_lim fr inp p (AList.update attr_name v attrs))"
        using fr value_error(1-3) by (subst parse_attributes_lim.simps) (simp add: Let_def)
      from parse_attr_value_lim_cases[of "fr - 1" inp ?p4] value_error(4,5) show ?thesis
        unfolding unf by auto
    next
      case (step attr_name p2 attr_value p5)
      let ?p4 = "skip_whitespace inp (skip_whitespace inp p2 + 1)"
      have unf: "parse_attributes_lim fr inp pos attrs =
          (case parse_attr_value_lim (fr - 1) inp ?p4 of
             Inl e \<Rightarrow> Inl e
           | Inr (v, p) \<Rightarrow> parse_attributes_lim fr inp p (AList.update attr_name v attrs))"
        using fr step(1-3) by (subst parse_attributes_lim.simps) (simp add: Let_def)
      from parse_attr_value_lim_cases[of "fr - 1" inp ?p4]
      show ?thesis
      proof
        assume "parse_attr_value_lim (fr - 1) inp ?p4 = Inl RecursionError"
        then show ?thesis unfolding unf by simp
      next
        assume "parse_attr_value_lim (fr - 1) inp ?p4 = parse_attr_value inp ?p4"
        with step(4) have vl: "parse_attr_value_lim (fr - 1) inp ?p4 = Inr (attr_value, p5)"
          by simp
        from "1.IH"[OF fr refl step(1) step(2) refl refl step(3) refl vl refl]
        show ?thesis unfolding unf vl step(5) by simp
      qed
    qed
  qed
qed




lemma lim_refines_partial:
  "parse_element_lim_parse_children_lim_dom (Inl (fr, inp, pos)) \<Longrightarrow>
     parse_element_lim fr inp pos = Inl RecursionError \<or>
     parse_element_lim fr inp pos = parse_element inp pos"
  "parse_element_lim_parse_children_lim_dom (Inr (fr, inp, pos, tag_name, children)) \<Longrightarrow>
     parse_children_lim fr inp pos tag_name children = Inl RecursionError \<or>
     parse_children_lim fr inp pos tag_name children = parse_children inp pos tag_name children"
proof (induction rule: parse_element_lim_parse_children_lim.pinduct)
  case (1 fr inp pos)
  note unf = parse_element_lim.psimps[OF 1(1)]
  show ?case
  proof (cases "fr = 0")
    case True
    then show ?thesis using unf by simp
  next
    case fr: False
    have attr_rec: ?thesis
      if "current_char inp pos = ''<''"
        "parse_tag_name inp (skip_whitespace inp (pos + 1)) = Inr (tn, p2)"
        "parse_attributes_lim (fr - 1) inp (skip_whitespace inp p2) [] = Inl RecursionError"
      for tn p2
      using that fr by (simp add: unf Let_def)
    show ?thesis
    proof (cases rule: parse_element_cases[where inp = inp and pos = pos])
      case not_lt
      then show ?thesis using fr by (simp add: unf)
    next
      case (name_error e)
      then show ?thesis using fr by (simp add: unf Let_def)
    next
      case (attr_error tn p2 e)
      from parse_attributes_lim_refines[of "fr - 1" inp "skip_whitespace inp p2" "[]"]
      show ?thesis
      proof
        assume "parse_attributes_lim (fr - 1) inp (skip_whitespace inp p2) [] = Inl RecursionError"
        with attr_error(1,2) show ?thesis by (rule attr_rec)
      next
        assume "parse_attributes_lim (fr - 1) inp (skip_whitespace inp p2) []
            = parse_attributes inp (skip_whitespace inp p2) []"
        with attr_error fr show ?thesis by (simp add: unf Let_def)
      qed
    next
      case (selfclose tn p2 at p4)
      from parse_attributes_lim_refines[of "fr - 1" inp "skip_whitespace inp p2" "[]"]
      show ?thesis
      proof
        assume "parse_attributes_lim (fr - 1) inp (skip_whitespace inp p2) [] = Inl RecursionError"
        with selfclose(1,2) show ?thesis by (rule attr_rec)
      next
        assume "parse_attributes_lim (fr - 1) inp (skip_whitespace inp p2) []
            = parse_attributes inp (skip_whitespace inp p2) []"
        with selfclose fr show ?thesis by (simp add: unf Let_def)
      qed
    next
      case (malformed tn p2 at p4)
      from parse_attributes_lim_refines[of "fr - 1" inp "skip_whitespace inp p2" "[]"]
      show ?thesis
      proof
        assume "parse_attributes_lim (fr - 1) inp (skip_whitespace inp p2) [] = Inl RecursionError"
        with malformed(1,2) show ?thesis by (rule attr_rec)
      next
        assume "parse_attributes_lim (fr - 1) inp (skip_whitespace inp p2) []
            = parse_attributes inp (skip_whitespace inp p2) []"
        with malformed fr show ?thesis by (simp add: unf Let_def)
      qed
    next
      case (children_error tn p2 at p4 e)
      from parse_attributes_lim_refines[of "fr - 1" inp "skip_whitespace inp p2" "[]"]
      show ?thesis
      proof
        assume "parse_attributes_lim (fr - 1) inp (skip_whitespace inp p2) [] = Inl RecursionError"
        with children_error(1,2) show ?thesis by (rule attr_rec)
      next
        assume "parse_attributes_lim (fr - 1) inp (skip_whitespace inp p2) []
            = parse_attributes inp (skip_whitespace inp p2) []"
        with children_error(3)
        have atl: "parse_attributes_lim (fr - 1) inp (skip_whitespace inp p2) [] = Inr (at, p4)"
          by simp
        from children_error(1) have nlt: "\<not> current_char inp pos \<noteq> ''<''" by simp
        have unf2: "parse_element_lim fr inp pos =
            (case parse_children_lim (fr - 1) inp (skip_whitespace inp p4 + 1) tn [] of
               Inl e \<Rightarrow> Inl e
             | Inr (cs, q) \<Rightarrow> Inr (SSMLTag tn at cs, q))"
          using fr children_error(1,2,4,5) atl by (simp add: unf Let_def)
        from 1(2)[OF fr nlt refl children_error(2) refl refl atl refl refl children_error(4,5)]
          children_error(6,7)
        show ?thesis unfolding unf2 by auto
      qed
    next
      case (children_ok tn p2 at p4 cs q)
      from parse_attributes_lim_refines[of "fr - 1" inp "skip_whitespace inp p2" "[]"]
      show ?thesis
      proof
        assume "parse_attributes_lim (fr - 1) inp (skip_whitespace inp p2) [] = Inl RecursionError"
        with children_ok(1,2) show ?thesis by (rule attr_rec)
      next
        assume "parse_attributes_lim (fr - 1) inp (skip_whitespace inp p2) []
            = parse_attributes inp (skip_whitespace inp p2) []"
        with children_ok(3)
        have atl: "parse_attributes_lim (fr - 1) inp (skip_whitespace inp p2) [] = Inr (at, p4)"
          by simp
        from children_ok(1) have nlt: "\<not> current_char inp pos \<noteq> ''<''" by simp
        have unf2: "parse_element_lim fr inp pos =
            (case parse_children_lim (fr - 1) inp (skip_whitespace inp p4 + 1) tn [] of
               Inl e \<Rightarrow> Inl e
             | Inr (cs, q) \<Rightarrow> Inr (SSMLTag tn at cs, q))"
          using fr children_ok(1,2,4,5) atl by (simp add: unf Let_def)
        from 1(2)[OF fr nlt refl children_ok(2) refl refl atl refl refl children_ok(4,5)]
          children_ok(6,7)
        show ?thesis unfolding unf2 by auto
      qed
    qed
  qed
next
  case (2 fr inp pos tag_name children)
  note unf = parse_children_lim.psimps[OF 2(1)]
  show ?case
  proof (cases "length inp \<le> pos")
    case True
    then show ?thesis by (simp add: unf parse_children_eof)
  next
    case inb: False
    show ?thesis
    proof (cases "fr = 0")
      case True
      with inb show ?thesis using unf by simp
    next
      case fr: False
      show ?thesis
      proof (cases rule: parse_children_cases
          [where inp = inp and pos = pos and tag_name = tag_name and children = children])
        case eof
        with inb show ?thesis by simp
      next
        case (close_name_error e)
        then show ?thesis using fr by (simp add: unf Let_def)
      next
        case (close_no_gt closing_tag p2)
        then show ?thesis using fr by (simp add: unf Let_def)
      next
        case (mismatch closing_tag p2)
        then show ?thesis using fr by (simp add: unf Let_def)
      next
        case (close_ok p2)
        then show ?thesis using fr by (simp add: unf Let_def)
      next
        case (element_error e)
        have unf2: "parse_children_lim fr inp pos tag_name children =
            (case parse_element_lim (fr - 1) inp pos of
               Inl e \<Rightarrow> Inl e
             | Inr (child, p) \<Rightarrow> parse_children_lim fr inp p tag_name (children @ [child]))"
          using fr element_error(1-3) by (simp add: unf)
        from 2(2)[OF inb fr element_error(2,3)] element_error(4,5)
        show ?thesis unfolding unf2 by auto
      next
        case (element_ok child p')
        have unf2: "parse_children_lim fr inp pos tag_name children =
            (case parse_element_lim (fr - 1) inp pos of
               Inl e \<Rightarrow> Inl e
             | Inr (child, p) \<Rightarrow> parse_children_lim fr inp p tag_name (children @ [child]))"
          using fr element_ok(1-3) by (simp add: unf)
        from 2(2)[OF inb fr element_ok(2,3)]
        show ?thesis
        proof
          assume "parse_element_lim (fr - 1) inp pos = Inl RecursionError"
          then show ?thesis unfolding unf2 by simp
        next
          assume "parse_element_lim (fr - 1) inp pos = parse_element inp pos"
          with element_ok(4) have el: "parse_element_lim (fr - 1) inp pos = Inr (child, p')"
            by simp
          from 2(3)[OF inb fr element_ok(2,3) el refl]
          show ?thesis unfolding unf2 el element_ok(5) by simp
        qed
      next
        case (text_run text_node p')
        have unf2: "parse_children_lim fr inp pos tag_name children =
            (case parse_text_lim (fr - 1) inp pos of
               Inl e \<Rightarrow> Inl e
             | Inr (t, p) \<Rightarrow> parse_children_lim fr inp p tag_name (children @ [t]))"
          using fr text_run(1-3) by (simp add: unf)
        show ?thesis
        proof (cases "fr - 1 = 0")
          case True
          then have "parse_text_lim (fr - 1) inp pos = Inl RecursionError"
            by (simp add: parse_text_lim_def)
          then show ?thesis unfolding unf2 by simp
        next
          case False
          with text_run(4) have tl: "parse_text_lim (fr - 1) inp pos = Inr (text_node, p')"
            by (simp add: parse_text_lim_def)
          from 2(4)[OF inb fr text_run(2,3) tl refl]
          show ?thesis unfolding unf2 tl text_run(5) by simp
        qed
      qed
    qed
  qed
qed

termination parse_element_lim
proof (relation "measure (\<lambda>x. case x of
          Inl (fr, inp, pos) \<Rightarrow> 2 * (length inp - pos)
        | Inr (fr, inp, pos, tag_name, children) \<Rightarrow> 2 * (length inp - pos) + 1)", goal_cases)
  case 1
  show ?case by simp
next
  case (2 fr inp pos p1 b tn p2 p3 ba at p4 p5)
  then have tn: "parse_tag_name inp (skip_whitespace inp (pos + 1)) = Inr (tn, p2)"
    and atl: "parse_attributes_lim (fr - 1) inp (skip_whitespace inp p2) [] = Inr (at, p4)"
    and gt: "current_char inp (skip_whitespace inp p4) = ''>''" and p5: "p5 = skip_whitespace inp p4"
    by simp_all
  from atl parse_attributes_lim_refines[of "fr - 1" inp "skip_whitespace inp p2" "[]"]
  have at: "parse_attributes inp (skip_whitespace inp p2) [] = Inr (at, p4)" by simp
  have "pos + 1 \<le> skip_whitespace inp (pos + 1)" "skip_whitespace inp (pos + 1) < p2"
       "p2 \<le> skip_whitespace inp p2" "skip_whitespace inp p2 \<le> p4" "p4 \<le> p5"
    using skip_whitespace_ge parse_tag_name_progress[OF tn] parse_attributes_ge[OF at] p5
    by simp_all
  moreover have "p5 < length inp" using current_char_lt[OF gt] p5 by simp
  ultimately show ?case by simp
next
  case (3 fr inp pos tag_name children)
  then show ?case by simp
next
  case (4 fr inp pos tag_name children b child p')
  then have el: "parse_element_lim (fr - 1) inp pos = Inr (child, p')"
    and dom: "parse_element_lim_parse_children_lim_dom (Inl (fr - 1, inp, pos))" by simp_all
  from lim_refines_partial(1)[OF dom] el have "parse_element inp pos = Inr (child, p')" by simp
  with progress_partial(1)[OF dom_total(1)] have "pos < p'" by blast
  with 4 show ?case by simp
next
  case (5 fr inp pos tag_name children b tnode p')
  then have "parse_text inp pos = (tnode, p')"
    by (simp add: parse_text_lim_def split: if_splits)
  with 5 have "pos < p'" using parse_text_progress[of inp pos tnode p'] by simp
  with 5 show ?case by simp
qed

declare parse_element_lim.simps [simp del] parse_children_lim.simps [simp del]

lemma lim_dom_total:
  "parse_element_lim_parse_children_lim_dom (Inl (fr, inp, pos))"
  "parse_element_lim_parse_children_lim_dom (Inr (fr, inp, pos, tag_name, children))"
proof (induction fr inp pos and fr inp pos tag_name children
    rule: parse_element_lim_parse_children_lim.induct)
  case (1 fr inp pos)
  show ?case
  proof (rule parse_element_lim_parse_children_lim.domintros(1))
    fix tn p2 at p4
    assume "0 < fr" "current_char inp pos = ''<''"
      "parse_tag_name inp (skip_whitespace inp (Suc pos)) = Inr (tn, p2)"
      "parse_attributes_lim (fr - Suc 0) inp (skip_whitespace inp p2) [] = Inr (at, p4)"
      "\<not> startswith inp (skip_whitespace inp p4) ''/>''"
      "current_char inp (skip_whitespace inp p4) = ''>''"
    then show "parse_element_lim_parse_children_lim_dom
        (Inr (fr - Suc 0, inp, Suc (skip_whitespace inp p4), tn, []))"
      using 1[OF _ _ refl _ refl refl _ refl refl] by simp
  qed
next
  case (2 fr inp pos tag_name children)
  show ?case
  proof (rule parse_element_lim_parse_children_lim.domintros(2))
    assume "\<not> length inp \<le> pos" "0 < fr" "\<not> startswith inp pos ''</''"
      "current_char inp pos = ''<''"
    then show "parse_element_lim_parse_children_lim_dom (Inl (fr - Suc 0, inp, pos))"
      using 2(1) by simp
  next
    fix child p'
    assume "\<not> length inp \<le> pos" "0 < fr" "\<not> startswith inp pos ''</''"
      "current_char inp pos = ''<''"
      "parse_element_lim (fr - Suc 0) inp pos = Inr (child, p')"
    then show "parse_element_lim_parse_children_lim_dom
        (Inr (fr, inp, p', tag_name, children @ [child]))"
      using 2(2)[OF _ _ _ _ _ refl] by simp
  next
    fix tnode p'
    assume "\<not> length inp \<le> pos" "0 < fr" "\<not> startswith inp pos ''</''"
      "current_char inp pos \<noteq> ''<''"
      "parse_text_lim (fr - Suc 0) inp pos = Inr (tnode, p')"
    then show "parse_element_lim_parse_children_lim_dom
        (Inr (fr, inp, p', tag_name, children @ [tnode]))"
      using 2(3)[OF _ _ _ _ _ refl] by simp
  qed
qed


lemma parse_children_lim_refines:
  "parse_children_lim fr inp pos tag_name children = Inl RecursionError \<or>
   parse_children_lim fr inp pos tag_name children = parse_children inp pos tag_name children"
  by (rule lim_refines_partial(2)[OF lim_dom_total(2)])





section \<open>Notions for the statements\<close>

text \<open>A tree in which no text node is empty.\<close>

fun no_empty_text :: "SSMLNode \<Rightarrow> bool" where
  "no_empty_text (SSMLText t) = (t \<noteq> [])"
| "no_empty_text (SSMLTag name attributes children) = list_all no_empty_text children"




text \<open>
  The source text of one attribute, after the grammar of the parser,
  \<^verbatim>\<open>attr := name ws* '=' ws* '"' value '"'\<close>, with the whitespace in front of it: the parts of
  the text, the text they make, the conditions on the parts, and the dictionary that a list of
  attributes gives when each is stored in turn, as \<^verbatim>\<open>attrs[attr_name] = attr_value\<close> does.
\<close>

datatype attr_src =
  AttrSrc (a_lead: string) (a_name: string) (a_before_eq: string) (a_after_eq: string)
    (a_raw: string)

definition attr_text :: "attr_src \<Rightarrow> string" where
  "attr_text a =
     a_lead a @ a_name a @ a_before_eq a @ ''='' @ a_after_eq a
       @ [CHR 0x22] @ a_raw a @ [CHR 0x22]"

definition attr_ok :: "attr_src \<Rightarrow> bool" where
  "attr_ok a =
     (list_all isspace (a_lead a) \<and>
      a_name a \<noteq> [] \<and>
      list_all (\<lambda>c. \<not> isspace c \<and> c \<notin> set [CHR ''='', CHR ''/'', CHR ''>'']) (a_name a) \<and>
      list_all isspace (a_before_eq a) \<and>
      list_all isspace (a_after_eq a) \<and>
      CHR 0x22 \<notin> set (a_raw a))"

definition collect_attrs :: "(string \<times> string) list \<Rightarrow> attr_src list \<Rightarrow> (string \<times> string) list" where
  "collect_attrs attrs as =
     foldl (\<lambda>attrs a. AList.update (a_name a) (unescapeXMLChars (a_raw a)) attrs) attrs as"

text \<open>
  The shape of the trees that the parser builds: a tag name and an attribute name are not
  empty and hold none of the characters that end them, the keys of a tag are distinct, a value
  holds no double quote, a text node is not empty and no two text nodes are neighbours. A tree
  is clean when no text and no attribute value in it holds \<open><\<close> or \<open>>\<close>.
\<close>

definition valid_tag_name :: "string \<Rightarrow> bool" where
  "valid_tag_name n = (n \<noteq> [] \<and> list_all (\<lambda>c. \<not> isspace c \<and> c \<notin> set [CHR ''/'', CHR ''>'']) n)"

definition valid_attr_name :: "string \<Rightarrow> bool" where
  "valid_attr_name k =
     (k \<noteq> [] \<and> list_all (\<lambda>c. \<not> isspace c \<and> c \<notin> set [CHR ''='', CHR ''/'', CHR ''>'']) k)"

fun no_adjacent_text :: "SSMLNode list \<Rightarrow> bool" where
  "no_adjacent_text (SSMLText a # SSMLText b # cs) = False"
| "no_adjacent_text (c # cs) = no_adjacent_text cs"
| "no_adjacent_text [] = True"

fun well_formed :: "SSMLNode \<Rightarrow> bool" where
  "well_formed (SSMLText t) = (t \<noteq> [])"
| "well_formed (SSMLTag n at cs) =
     (valid_tag_name n \<and> distinct (map fst at) \<and>
      list_all (\<lambda>(k, v). valid_attr_name k \<and> CHR 0x22 \<notin> set v) at \<and>
      list_all well_formed cs \<and> no_adjacent_text cs)"

fun clean :: "SSMLNode \<Rightarrow> bool" where
  "clean (SSMLText t) = (CHR ''<'' \<notin> set t \<and> CHR ''>'' \<notin> set t)"
| "clean (SSMLTag n at cs) =
     (list_all (\<lambda>(k, v). CHR ''<'' \<notin> set v \<and> CHR ''>'' \<notin> set v) at \<and> list_all clean cs)"
















text \<open>
  The document of \<open>d + 1\<close> elements \<open>speak\<close>, each but the innermost with the next as its
  only child.
\<close>

fun nested :: "nat \<Rightarrow> SSMLNode" where
  "nested 0 = SSMLTag ''speak'' [] []"
| "nested (Suc d) = SSMLTag ''speak'' [] [nested d]"

section \<open>Facts about the parser\<close>

lemma parse_element_progress:
  "parse_element inp pos = Inr (n, q) \<Longrightarrow> pos < q \<and> q \<le> length inp"
  using progress_partial(1)[OF dom_total(1)] by blast

lemma parse_children_progress:
  "parse_children inp pos tag_name children = Inr (r, q) \<Longrightarrow> pos < q \<and> q \<le> length inp"
  using progress_partial(2)[OF dom_total(2)] by blast

lemma advance_while_all:
  "pos \<le> i \<Longrightarrow> i < advance_while P inp pos \<Longrightarrow> P (inp ! i)"
proof (induction P inp pos rule: advance_while.induct)
  case (1 P inp pos)
  show ?case
  proof (cases "pos < length inp \<and> P (inp ! pos)")
    case True
    then have eq: "advance_while P inp pos = advance_while P inp (pos + 1)"
      by (subst advance_while.simps) simp
    show ?thesis
    proof (cases "i = pos")
      case True
      with \<open>pos < length inp \<and> P (inp ! pos)\<close> show ?thesis by simp
    next
      case False
      with "1.prems" have "pos + 1 \<le> i" by simp
      from "1.IH"[OF True this] "1.prems"(2) eq show ?thesis by simp
    qed
  next
    case False
    then have "advance_while P inp pos = pos" by (subst advance_while.simps) auto
    with "1.prems" show ?thesis by simp
  qed
qed

lemma advance_while_eq_length:
  assumes "pos \<le> length inp"
  shows "(advance_while P inp pos = length inp) = (\<forall>i. pos \<le> i \<and> i < length inp \<longrightarrow> P (inp ! i))"
proof
  assume "advance_while P inp pos = length inp"
  then show "\<forall>i. pos \<le> i \<and> i < length inp \<longrightarrow> P (inp ! i)"
    using advance_while_all[of pos _ P inp] by simp
next
  assume all: "\<forall>i. pos \<le> i \<and> i < length inp \<longrightarrow> P (inp ! i)"
  show "advance_while P inp pos = length inp"
  proof (rule ccontr)
    assume "advance_while P inp pos \<noteq> length inp"
    with advance_while_le[OF assms, of P] have lt: "advance_while P inp pos < length inp" by simp
    from advance_while_stop[OF lt] all advance_while_ge[of pos P inp] lt show False by blast
  qed
qed

lemma parse_element_is_tag:
  assumes "parse_element inp pos = Inr (n, q)"
  shows "current_char inp pos = ''<'' \<and> (\<exists>tn at cs. n = SSMLTag tn at cs)"
  by (cases inp pos rule: parse_element_cases) (use assms in auto)

lemma current_char_eq: "(current_char inp pos = [c]) = (pos < length inp \<and> inp ! pos = c)"
  by (auto simp: current_char_def)

lemma parse_unfold:
  "parse inp =
     (if length inp \<le> skip_whitespace inp 0 \<or> current_char inp (skip_whitespace inp 0) \<noteq> ''<''
      then Inl (ValueError ''SSML must start with an opening tag'')
      else
        (case parse_element inp (skip_whitespace inp 0) of
           Inl e \<Rightarrow> Inl e
         | Inr (node, q) \<Rightarrow>
             if skip_whitespace inp q \<noteq> length inp
             then Inl (ValueError ''Extra content after root element'')
             else if \<not> (is_SSMLTag node \<and> node_name node = ''speak'')
             then Inl (ValueError ''Root element must be <speak>'')
             else Inr node))"
  by (simp add: parse_def Let_def split: sum.splits prod.splits)

lemma advance_while_takeWhile:
  "advance_while P inp pos = pos + length (takeWhile P (drop pos inp))"
proof (induction P inp pos rule: advance_while.induct)
  case (1 P inp pos)
  show ?case
  proof (cases "pos < length inp \<and> P (inp ! pos)")
    case True
    then have eq: "advance_while P inp pos = advance_while P inp (pos + 1)"
      by (subst advance_while.simps) simp
    from True have "drop pos inp = inp ! pos # drop (pos + 1) inp"
      by (simp add: Cons_nth_drop_Suc)
    with True have "takeWhile P (drop pos inp) = inp ! pos # takeWhile P (drop (pos + 1) inp)"
      by simp
    with "1.IH"[OF True] eq show ?thesis by simp
  next
    case False
    then have eq: "advance_while P inp pos = pos" by (subst advance_while.simps) auto
    show ?thesis
    proof (cases "pos < length inp")
      case True
      with False have "\<not> P (inp ! pos)" by simp
      moreover from True have "drop pos inp = inp ! pos # drop (pos + 1) inp"
        by (simp add: Cons_nth_drop_Suc)
      ultimately show ?thesis using eq by simp
    next
      case False
      then show ?thesis using eq by simp
    qed
  qed
qed

lemma slice_advance_while:
  "slice inp pos (advance_while P inp pos) = takeWhile P (drop pos inp)"
  by (simp add: slice_def advance_while_takeWhile takeWhile_eq_take[symmetric])

lemma parse_text_run:
  "parse_text inp pos =
     (SSMLText (unescapeXMLChars (takeWhile (\<lambda>c. c \<noteq> CHR ''<'') (drop pos inp))),
      pos + length (takeWhile (\<lambda>c. c \<noteq> CHR ''<'') (drop pos inp)))"
proof -
  have "(\<lambda>c. [c] \<noteq> ''<'') = (\<lambda>c. c \<noteq> CHR ''<'')" by simp
  then show ?thesis
    unfolding parse_text_def Let_def slice_advance_while
    by (simp add: advance_while_takeWhile)
qed





lemma current_char_at: "current_char (pre @ c # rest) (length pre) = [c]"
  by (simp add: current_char_def nth_append)

lemma startswith_at: "startswith (pre @ s @ rest) (length pre) s"
  by (simp add: startswith_def)

lemma skip_whitespace_at:
  "rest = [] \<or> \<not> isspace (hd rest) \<Longrightarrow> skip_whitespace (pre @ rest) (length pre) = length pre"
  by (cases rest) (auto simp: skip_whitespace_def advance_while_takeWhile)

lemma parse_tag_name_at:
  assumes "n \<noteq> []" and "\<forall>c\<in>set n. \<not> isspace c \<and> c \<notin> set [CHR ''/'', CHR ''>'']"
    and "rest = [] \<or> isspace (hd rest) \<or> hd rest \<in> set [CHR ''/'', CHR ''>'']"
  shows "parse_tag_name (pre @ n @ rest) (length pre) = Inr (n, length pre + length n)"
proof -
  let ?P = "\<lambda>c. \<not> isspace c \<and> c \<notin> set [CHR ''/'', CHR ''>'']"
  from assms(3) have "takeWhile ?P rest = []" by (cases rest) auto
  with assms(2) have tw: "takeWhile ?P (n @ rest) = n" by (simp add: takeWhile_append2)
  have adv: "advance_while ?P (pre @ n @ rest) (length pre) = length pre + length n"
  proof -
    have "drop (length pre) (pre @ n @ rest) = n @ rest" by simp
    then show ?thesis by (simp only: advance_while_takeWhile tw)
  qed
  have sl: "slice (pre @ n @ rest) (length pre) (length pre + length n) = n"
    by (simp add: slice_def)
  from assms(1) show ?thesis
    unfolding parse_tag_name_def Let_def adv sl by simp
qed

lemma isspace_reserved [simp]:
  "\<not> isspace CHR ''<''" "\<not> isspace CHR ''>''" "\<not> isspace CHR ''/''" "\<not> isspace CHR ''=''"
  "\<not> isspace CHR 0x22" "\<not> isspace CHR ''&''"
  by (simp_all add: isspace_def)

lemma parse_attributes_none:
  assumes "rest = [] \<or> hd rest \<in> set [CHR ''/'', CHR ''>'']"
  shows "parse_attributes (pre @ rest) (length pre) attrs = Inr (attrs, length pre)"
proof -
  from assms have "rest = [] \<or> \<not> isspace (hd rest)" by auto
  then have sk: "skip_whitespace (pre @ rest) (length pre) = length pre"
    by (rule skip_whitespace_at)
  from assms have "length (pre @ rest) \<le> length pre \<or>
      current_char (pre @ rest) (length pre) \<in> set [''/'', ''>'']"
    by (cases rest) (auto simp: current_char_def nth_append)
  then show ?thesis
    using parse_attributes_stop[of "pre @ rest" "length pre" attrs] by (simp only: sk)
qed

lemma parse_element_selfclosing_name:
  assumes ne: "n \<noteq> []" and ok: "\<forall>c\<in>set n. \<not> isspace c \<and> c \<notin> set [CHR ''/'', CHR ''>'']"
  shows "parse_element (pre @ ''<'' @ n @ ''/>'' @ rest) (length pre)
           = Inr (SSMLTag n [] [], length pre + length n + 3)"
proof -
  let ?inp = "pre @ ''<'' @ n @ ''/>'' @ rest"
  let ?p = "length pre + 1"
  let ?q = "length pre + 1 + length n"
  have lt: "current_char ?inp (length pre) = ''<''"
    using current_char_at[of pre "CHR ''<''" "n @ ''/>'' @ rest"] by simp
  from ne ok have "\<not> isspace (hd n)" by (cases n) auto
  with ne have s1: "skip_whitespace ?inp (length pre + 1) = ?p"
    using skip_whitespace_at[of "n @ ''/>'' @ rest" "pre @ ''<''"] by simp
  have tn: "parse_tag_name ?inp ?p = Inr (n, ?q)"
    using parse_tag_name_at[OF ne ok, of "''/>'' @ rest" "pre @ ''<''"] by simp
  have s2: "skip_whitespace ?inp ?q = ?q"
    using skip_whitespace_at[of "''/>'' @ rest" "pre @ ''<'' @ n"] by simp
  have at: "parse_attributes ?inp ?q [] = Inr ([], ?q)"
    using parse_attributes_none[of "''/>'' @ rest" "pre @ ''<'' @ n" "[]"] by simp
  have sc: "startswith ?inp ?q ''/>''"
    using startswith_at[of "pre @ ''<'' @ n" "''/>''" rest] by simp
  have "parse_element ?inp (length pre) = Inr (SSMLTag n [] [], skip_whitespace ?inp ?q + 2)"
    by (rule parse_element_selfclose[where ?p2.0 = ?q and ?p4.0 = ?q])
       (simp_all only: lt s1 tn s2 at sc)
  then show ?thesis by (simp only: s2) simp
qed

lemma parse_children_closing:
  assumes ne: "b \<noteq> []" and ok: "\<forall>c\<in>set b. \<not> isspace c \<and> c \<notin> set [CHR ''/'', CHR ''>'']"
  shows "parse_children (pre @ ''</'' @ b @ ''>'' @ rest) (length pre) a cs =
           (if b = a then Inr (cs, length pre + length b + 3)
            else Inl (ValueError (''Mismatched closing tag: expected </'' @ a
                                    @ ''> but found </'' @ b @ ''>'')))"
proof -
  let ?inp = "pre @ ''</'' @ b @ ''>'' @ rest"
  let ?p = "length pre + 2"
  let ?q = "length pre + 2 + length b"
  have inb: "\<not> length ?inp \<le> length pre" by simp
  have cl: "startswith ?inp (length pre) ''</''"
    using startswith_at[of pre "''</''" "b @ ''>'' @ rest"] by simp
  from ne ok have "\<not> isspace (hd b)" by (cases b) auto
  with ne have s1: "skip_whitespace ?inp (length pre + 2) = ?p"
    using skip_whitespace_at[of "b @ ''>'' @ rest" "pre @ ''</''"] by simp
  have tn: "parse_tag_name ?inp ?p = Inr (b, ?q)"
    using parse_tag_name_at[OF ne ok, of "''>'' @ rest" "pre @ ''</''"] by simp
  have s2: "skip_whitespace ?inp ?q = ?q"
    using skip_whitespace_at[of "''>'' @ rest" "pre @ ''</'' @ b"] by simp
  have gt: "current_char ?inp ?q = ''>''"
    using current_char_at[of "pre @ ''</'' @ b" "CHR ''>''" rest] by simp
  then have inq: "\<not> length ?inp \<le> ?q" by (simp add: current_char_eq)
  have tn': "parse_tag_name ?inp (skip_whitespace ?inp (length pre + 2)) = Inr (b, ?q)"
    by (simp only: s1 tn)
  show ?thesis
    unfolding parse_children_close[OF inb cl tn'] s2
    using gt inq by simp
qed

lemma parse_element_open_close_name:
  assumes ne: "n \<noteq> []" and ok: "\<forall>c\<in>set n. \<not> isspace c \<and> c \<notin> set [CHR ''/'', CHR ''>'']"
  shows "parse_element (pre @ ''<'' @ n @ ''></'' @ n @ ''>'' @ rest) (length pre)
           = Inr (SSMLTag n [] [], length pre + 2 * length n + 5)"
proof -
  let ?inp = "pre @ ''<'' @ n @ ''></'' @ n @ ''>'' @ rest"
  let ?p = "length pre + 1"
  let ?q = "length pre + 1 + length n"
  have lt: "current_char ?inp (length pre) = ''<''"
    using current_char_at[of pre "CHR ''<''" "n @ ''></'' @ n @ ''>'' @ rest"] by simp
  from ne ok have "\<not> isspace (hd n)" by (cases n) auto
  with ne have s1: "skip_whitespace ?inp (length pre + 1) = ?p"
    using skip_whitespace_at[of "n @ ''></'' @ n @ ''>'' @ rest" "pre @ ''<''"] by simp
  have tn: "parse_tag_name ?inp ?p = Inr (n, ?q)"
    using parse_tag_name_at[OF ne ok, of "''></'' @ n @ ''>'' @ rest" "pre @ ''<''"] by simp
  have s2: "skip_whitespace ?inp ?q = ?q"
    using skip_whitespace_at[of "''></'' @ n @ ''>'' @ rest" "pre @ ''<'' @ n"] by simp
  have at: "parse_attributes ?inp ?q [] = Inr ([], ?q)"
    using parse_attributes_none[of "''></'' @ n @ ''>'' @ rest" "pre @ ''<'' @ n" "[]"] by simp
  have nsc: "\<not> startswith ?inp ?q ''/>''"
  proof -
    have "drop ?q ?inp = ''></'' @ n @ ''>'' @ rest" by simp
    then show ?thesis unfolding startswith_def by simp
  qed
  have gt: "current_char ?inp ?q = ''>''"
    using current_char_at[of "pre @ ''<'' @ n" "CHR ''>''" "''</'' @ n @ ''>'' @ rest"] by simp
  have ch: "parse_children ?inp (?q + 1) n [] = Inr ([], length pre + 2 * length n + 5)"
    using parse_children_closing[OF ne ok, of "pre @ ''<'' @ n @ ''>''" rest n "[]"] by simp
  have "parse_element ?inp (length pre) =
     (case parse_children ?inp (skip_whitespace ?inp ?q + 1) n [] of
        Inl e \<Rightarrow> Inl e
      | Inr (cs, q) \<Rightarrow> Inr (SSMLTag n [] cs, q))"
    by (rule parse_element_open[where ?p2.0 = ?q and ?p4.0 = ?q])
       (simp_all only: lt s1 tn s2 at nsc gt not_False_eq_True)
  then show ?thesis by (simp only: s2 ch sum.case prod.case)
qed

lemma foldl_append_concat:
  "foldl (\<lambda>acc (k, v). acc @ f k v) acc0 xs = acc0 @ concat (map (\<lambda>(k, v). f k v) xs)"
  by (induction xs arbitrary: acc0) auto

lemma ssmlNodeToText_tag:
  "ssmlNodeToText (SSMLTag tn at cs) =
     ''<'' @ tn
       @ concat (map (\<lambda>(key, val). '' '' @ key @ ''='' @ [CHR 0x22] @ escapeXMLChars val
                                      @ [CHR 0x22]) at)
       @ ''>'' @ concat (map ssmlNodeToText cs) @ ''</'' @ tn @ ''>''"
  by (simp add: foldl_append_concat)

lemma replace_nonempty:
  "s \<noteq> [] \<Longrightarrow> new \<noteq> [] \<Longrightarrow> replace old new s \<noteq> []"
  by (cases s) auto

lemma unescapeXMLChars_nonempty: "s \<noteq> [] \<Longrightarrow> unescapeXMLChars s \<noteq> []"
  by (simp add: unescapeXMLChars_def replace_nonempty)

lemma parse_text_nonempty:
  assumes "\<not> length inp \<le> pos" and "current_char inp pos \<noteq> ''<''"
    and "parse_text inp pos = (text_node, p')"
  shows "no_empty_text text_node"
proof -
  from assms(1,2) have "inp ! pos \<noteq> CHR ''<''" by (simp add: current_char_def)
  moreover from assms(1) have "drop pos inp = inp ! pos # drop (pos + 1) inp"
    by (simp add: Cons_nth_drop_Suc)
  ultimately have "takeWhile (\<lambda>c. c \<noteq> CHR ''<'') (drop pos inp) \<noteq> []" by simp
  then have "unescapeXMLChars (takeWhile (\<lambda>c. c \<noteq> CHR ''<'') (drop pos inp)) \<noteq> []"
    by (rule unescapeXMLChars_nonempty)
  with assms(3) show ?thesis by (auto simp: parse_text_run)
qed

lemma no_empty_text_aux:
  "\<forall>n q. parse_element inp pos = Inr (n, q) \<longrightarrow> no_empty_text n"
  "\<forall>r q. parse_children inp pos tag_name children = Inr (r, q) \<longrightarrow>
     list_all no_empty_text children \<longrightarrow> list_all no_empty_text r"
proof (induction inp pos and inp pos tag_name children rule: parse_element_parse_children.induct)
  case (1 inp pos)
  show ?case
  proof (intro allI impI)
    fix n q
    assume r: "parse_element inp pos = Inr (n, q)"
    show "no_empty_text n"
    proof (cases rule: parse_element_cases[where inp = inp and pos = pos])
      case (selfclose tn p2 at p4)
      with r show ?thesis by auto
    next
      case (children_ok tn p2 at p4 cs q')
      from children_ok(1) have nlt: "\<not> current_char inp pos \<noteq> ''<''" by simp
      from "1.IH"[OF nlt refl children_ok(2) refl refl children_ok(3) refl refl
          children_ok(4,5)] children_ok(6)
      have "list_all no_empty_text cs" by simp
      with r children_ok(7) show ?thesis by auto
    qed (use r in simp_all)
  qed
next
  case (2 inp pos tag_name children)
  show ?case
  proof (intro allI impI)
    fix r q
    assume r: "parse_children inp pos tag_name children = Inr (r, q)"
      and cs: "list_all no_empty_text children"
    show "list_all no_empty_text r"
    proof (cases rule: parse_children_cases
        [where inp = inp and pos = pos and tag_name = tag_name and children = children])
      case (close_ok p2)
      with r cs show ?thesis by auto
    next
      case (element_ok child p')
      from "2.IH"(1)[OF element_ok(1-3)] element_ok(4) have "no_empty_text child" by blast
      with cs have "list_all no_empty_text (children @ [child])" by simp
      with "2.IH"(2)[OF element_ok(1-4) refl] r element_ok(5) show ?thesis by simp
    next
      case (text_run text_node p')
      from parse_text_nonempty[OF text_run(1,3,4)] cs
      have "list_all no_empty_text (children @ [text_node])" by simp
      with "2.IH"(3)[OF text_run(1-3) text_run(4)[symmetric]] r text_run(5)
      show ?thesis by simp
    qed (use r in simp_all)
  qed
qed










lemma skip_whitespace_ws:
  assumes "list_all isspace w" and "rest = [] \<or> \<not> isspace (hd rest)"
  shows "skip_whitespace (pre @ w @ rest) (length pre) = length pre + length w"
proof -
  from assms(2) have "takeWhile isspace rest = []" by (cases rest) auto
  with assms(1) have "takeWhile isspace (w @ rest) = w"
    by (simp add: takeWhile_append2 list_all_iff)
  moreover have "drop (length pre) (pre @ w @ rest) = w @ rest" by simp
  ultimately show ?thesis by (simp only: skip_whitespace_def advance_while_takeWhile)
qed

lemma parse_attr_name_at:
  assumes "n \<noteq> []"
    and "list_all (\<lambda>c. \<not> isspace c \<and> c \<notin> set [CHR ''='', CHR ''/'', CHR ''>'']) n"
    and "rest = [] \<or> isspace (hd rest) \<or> hd rest \<in> set [CHR ''='', CHR ''/'', CHR ''>'']"
  shows "parse_attr_name (pre @ n @ rest) (length pre) = Inr (n, length pre + length n)"
proof -
  let ?P = "\<lambda>c. \<not> isspace c \<and> c \<notin> set [CHR ''='', CHR ''/'', CHR ''>'']"
  from assms(3) have "takeWhile ?P rest = []" by (cases rest) auto
  with assms(2) have tw: "takeWhile ?P (n @ rest) = n"
    by (simp add: takeWhile_append2 list_all_iff)
  have adv: "advance_while ?P (pre @ n @ rest) (length pre) = length pre + length n"
  proof -
    have "drop (length pre) (pre @ n @ rest) = n @ rest" by simp
    then show ?thesis by (simp only: advance_while_takeWhile tw)
  qed
  have sl: "slice (pre @ n @ rest) (length pre) (length pre + length n) = n"
    by (simp add: slice_def)
  from assms(1) show ?thesis
    unfolding parse_attr_name_def Let_def adv sl by simp
qed

lemma parse_attr_value_at:
  assumes "CHR 0x22 \<notin> set v"
  shows "parse_attr_value (pre @ [CHR 0x22] @ v @ [CHR 0x22] @ rest) (length pre)
           = Inr (unescapeXMLChars v, length pre + length v + 2)"
proof -
  let ?inp = "pre @ [CHR 0x22] @ v @ [CHR 0x22] @ rest"
  let ?P = "\<lambda>c. [c] \<noteq> [CHR 0x22]"
  have inb: "\<not> length ?inp \<le> length pre" by simp
  have q: "current_char ?inp (length pre) = [CHR 0x22]"
    using current_char_at[of pre "CHR 0x22" "v @ [CHR 0x22] @ rest"] by simp
  have tw: "takeWhile ?P (v @ [CHR 0x22] @ rest) = v"
  proof -
    from assms have "\<And>x. x \<in> set v \<Longrightarrow> ?P x" by auto
    then have "takeWhile ?P (v @ [CHR 0x22] @ rest) = v @ takeWhile ?P ([CHR 0x22] @ rest)"
      by (rule takeWhile_append2)
    then show ?thesis by simp
  qed
  have adv: "advance_while ?P ?inp (length pre + 1) = length pre + 1 + length v"
  proof -
    have "drop (length pre + 1) ?inp = v @ [CHR 0x22] @ rest" by simp
    then show ?thesis by (simp only: advance_while_takeWhile tw)
  qed
  have sl: "slice ?inp (length pre + 1) (length pre + 1 + length v) = v"
    by (simp add: slice_def)
  have fin: "\<not> length ?inp \<le> length pre + 1 + length v" by simp
  show ?thesis
    unfolding parse_attr_value_def Let_def adv sl using inb q fin by simp
qed

lemma parse_attributes_end:
  assumes t: "list_all isspace t" and rest: "rest = [] \<or> hd rest \<in> set [CHR ''/'', CHR ''>'']"
  shows "parse_attributes (pre @ t @ rest) (length pre) attrs
           = Inr (attrs, length pre + length t)"
proof -
  let ?inp = "pre @ t @ rest"
  from rest have "rest = [] \<or> \<not> isspace (hd rest)" by auto
  from skip_whitespace_ws[OF t this]
  have sk: "skip_whitespace ?inp (length pre) = length pre + length t" .
  from rest have "length ?inp \<le> length pre + length t \<or>
      current_char ?inp (length pre + length t) \<in> set [''/'', ''>'']"
    by (cases rest) (auto simp: current_char_def nth_append)
  then show ?thesis
    using parse_attributes_stop[of ?inp "length pre" attrs] by (simp only: sk)
qed

lemma parse_attributes_one:
  assumes ok: "attr_ok (AttrSrc L N B A R)"
  shows "parse_attributes (pre @ L @ N @ B @ ''='' @ A @ [CHR 0x22] @ R @ [CHR 0x22] @ tail)
           (length pre) attrs
         = parse_attributes (pre @ L @ N @ B @ ''='' @ A @ [CHR 0x22] @ R @ [CHR 0x22] @ tail)
             (length (pre @ L @ N @ B @ ''='' @ A @ [CHR 0x22] @ R @ [CHR 0x22]))
             (AList.update N (unescapeXMLChars R) attrs)"
proof -
  let ?inp = "pre @ L @ N @ B @ ''='' @ A @ [CHR 0x22] @ R @ [CHR 0x22] @ tail"
  let ?p1 = "length (pre @ L)"
  let ?p2 = "length (pre @ L @ N)"
  let ?p3 = "length (pre @ L @ N @ B)"
  let ?p4 = "length (pre @ L @ N @ B @ ''='' @ A)"
  let ?p5 = "length (pre @ L @ N @ B @ ''='' @ A @ [CHR 0x22] @ R @ [CHR 0x22])"
  from ok have L: "list_all isspace L" and Nne: "N \<noteq> []"
    and N: "list_all (\<lambda>c. \<not> isspace c \<and> c \<notin> set [CHR ''='', CHR ''/'', CHR ''>'']) N"
    and B: "list_all isspace B" and A: "list_all isspace A" and R: "CHR 0x22 \<notin> set R"
    by (simp_all add: attr_ok_def)
  from Nne N have hdN: "\<not> isspace (hd N)" "hd N \<notin> set [CHR ''/'', CHR ''>'']"
    by (cases N; simp)+
  have s1: "skip_whitespace ?inp (length pre) = ?p1"
    using skip_whitespace_ws[OF L, of "N @ B @ ''='' @ A @ [CHR 0x22] @ R @ [CHR 0x22] @ tail" pre]
      Nne hdN(1) by simp
  have cc: "current_char ?inp ?p1 = [hd N]"
  proof -
    from Nne obtain c N' where n: "N = c # N'" by (cases N) auto
    show ?thesis
      unfolding n
      using current_char_at[of "pre @ L" c
          "N' @ B @ ''='' @ A @ [CHR 0x22] @ R @ [CHR 0x22] @ tail"]
      by simp
  qed
  have go: "\<not> (length ?inp \<le> skip_whitespace ?inp (length pre) \<or>
              current_char ?inp (skip_whitespace ?inp (length pre)) \<in> set [''/'', ''>''])"
    unfolding s1 cc using hdN(2) by simp
  have "B @ ''='' @ A @ [CHR 0x22] @ R @ [CHR 0x22] @ tail \<noteq> []" by simp
  moreover have "isspace (hd (B @ ''='' @ A @ [CHR 0x22] @ R @ [CHR 0x22] @ tail)) \<or>
      hd (B @ ''='' @ A @ [CHR 0x22] @ R @ [CHR 0x22] @ tail) \<in> set [CHR ''='', CHR ''/'', CHR ''>'']"
    using B by (cases B) simp_all
  ultimately have nm0: "parse_attr_name ?inp ?p1 = Inr (N, ?p2)"
    using parse_attr_name_at[OF Nne N,
        of "B @ ''='' @ A @ [CHR 0x22] @ R @ [CHR 0x22] @ tail" "pre @ L"]
    by simp
  have nm: "parse_attr_name ?inp (skip_whitespace ?inp (length pre)) = Inr (N, ?p2)"
    unfolding s1 by (rule nm0)
  have s2: "skip_whitespace ?inp ?p2 = ?p3"
    using skip_whitespace_ws[OF B, of "''='' @ A @ [CHR 0x22] @ R @ [CHR 0x22] @ tail"
        "pre @ L @ N"]
    by simp
  have ce: "current_char ?inp ?p3 = ''=''"
    using current_char_at[of "pre @ L @ N @ B" "CHR ''=''"
        "A @ [CHR 0x22] @ R @ [CHR 0x22] @ tail"]
    by simp
  have eq: "\<not> (length ?inp \<le> skip_whitespace ?inp ?p2 \<or>
              current_char ?inp (skip_whitespace ?inp ?p2) \<noteq> ''='')"
    unfolding s2 ce by simp
  have s3: "skip_whitespace ?inp (skip_whitespace ?inp ?p2 + 1) = ?p4"
    unfolding s2
    using skip_whitespace_ws[OF A, of "[CHR 0x22] @ R @ [CHR 0x22] @ tail"
        "pre @ L @ N @ B @ ''=''"]
    by simp
  have vl: "parse_attr_value ?inp (skip_whitespace ?inp (skip_whitespace ?inp ?p2 + 1))
              = Inr (unescapeXMLChars R, ?p5)"
    unfolding s3
    using parse_attr_value_at[OF R, of "pre @ L @ N @ B @ ''='' @ A" tail]
    by simp
  show ?thesis by (rule parse_attributes_step[OF go nm eq vl])
qed

lemma parse_attributes_at:
  assumes "list_all attr_ok as" and t: "list_all isspace t"
    and rest: "rest = [] \<or> hd rest \<in> set [CHR ''/'', CHR ''>'']"
  shows "parse_attributes (pre @ concat (map attr_text as) @ t @ rest) (length pre) attrs
           = Inr (collect_attrs attrs as,
                  length pre + length (concat (map attr_text as)) + length t)"
  using assms(1)
proof (induction as arbitrary: pre attrs)
  case Nil
  show ?case using parse_attributes_end[OF t rest, of pre attrs]
    by (simp add: collect_attrs_def)
next
  case (Cons a as)
  obtain L N B A R where a: "a = AttrSrc L N B A R" by (cases a)
  from Cons.prems a have ok: "attr_ok (AttrSrc L N B A R)" and oks: "list_all attr_ok as"
    by simp_all
  let ?tail = "concat (map attr_text as) @ t @ rest"
  let ?pre' = "pre @ L @ N @ B @ ''='' @ A @ [CHR 0x22] @ R @ [CHR 0x22]"
  have "parse_attributes (?pre' @ ?tail) (length pre) attrs
      = parse_attributes (?pre' @ ?tail) (length ?pre') (AList.update N (unescapeXMLChars R) attrs)"
    using parse_attributes_one[OF ok, of pre ?tail attrs] by simp
  also have "\<dots> = Inr (collect_attrs (AList.update N (unescapeXMLChars R) attrs) as,
                  length ?pre' + length (concat (map attr_text as)) + length t)"
    by (rule Cons.IH[OF oks])
  finally have "parse_attributes (?pre' @ ?tail) (length pre) attrs
      = Inr (collect_attrs (AList.update N (unescapeXMLChars R) attrs) as,
             length ?pre' + length (concat (map attr_text as)) + length t)" .
  moreover have "attr_text (AttrSrc L N B A R)
      = L @ N @ B @ ''='' @ A @ [CHR 0x22] @ R @ [CHR 0x22]"
    by (simp add: attr_text_def)
  moreover have "collect_attrs attrs (AttrSrc L N B A R # as)
      = collect_attrs (AList.update N (unescapeXMLChars R) attrs) as"
    by (simp add: collect_attrs_def)
  ultimately show ?case by (simp add: a)
qed

lemma skip_whitespace_idem:
  "skip_whitespace inp (skip_whitespace inp pos) = skip_whitespace inp pos"
proof (cases "skip_whitespace inp pos < length inp")
  case True
  then have "\<not> isspace (inp ! skip_whitespace inp pos)"
    unfolding skip_whitespace_def by (rule advance_while_stop)
  then show ?thesis
    unfolding skip_whitespace_def by (subst advance_while.simps) simp
next
  case False
  then show ?thesis
    unfolding skip_whitespace_def by (simp add: advance_while_beyond)
qed

lemma parse_attributes_skip:
  "parse_attributes inp (skip_whitespace inp pos) attrs = parse_attributes inp pos attrs"
  by (subst parse_attributes.simps, subst (2) parse_attributes.simps)
     (simp only: skip_whitespace_idem)

lemma distinct_collect_attrs:
  "distinct (map fst attrs) \<Longrightarrow> distinct (map fst (collect_attrs attrs as))"
  unfolding collect_attrs_def
  by (induction as arbitrary: attrs) (simp_all add: distinct_update)

lemma map_of_collect_attrs_other:
  "k \<notin> a_name ` set as \<Longrightarrow> map_of (collect_attrs attrs as) k = map_of attrs k"
  unfolding collect_attrs_def
  by (induction as arbitrary: attrs) (simp_all add: update_conv')

lemma map_of_collect_attrs_last:
  assumes "as = as1 @ a # as2" and "a_name a \<notin> a_name ` set as2"
  shows "map_of (collect_attrs attrs as) (a_name a) = Some (unescapeXMLChars (a_raw a))"
proof -
  have "collect_attrs attrs as
      = collect_attrs (AList.update (a_name a) (unescapeXMLChars (a_raw a))
                         (collect_attrs attrs as1)) as2"
    by (simp add: assms(1) collect_attrs_def)
  then show ?thesis
    by (simp add: map_of_collect_attrs_other[OF assms(2)] update_conv')
qed

lemma parse_element_attrs_selfclose:
  assumes ne: "n \<noteq> []" and ok: "\<forall>c\<in>set n. \<not> isspace c \<and> c \<notin> set [CHR ''/'', CHR ''>'']"
    and as: "list_all attr_ok as" and lead: "as = [] \<or> a_lead (hd as) \<noteq> []"
    and t: "list_all isspace t"
  shows "parse_element (pre @ ''<'' @ n @ concat (map attr_text as) @ t @ ''/>'' @ rest)
           (length pre)
         = Inr (SSMLTag n (collect_attrs [] as) [],
                length pre + length n + length (concat (map attr_text as)) + length t + 3)"
proof -
  let ?body = "concat (map attr_text as) @ t"
  let ?inp = "pre @ ''<'' @ n @ ?body @ ''/>'' @ rest"
  let ?p = "length (pre @ ''<'')"
  let ?q = "length (pre @ ''<'' @ n)"
  let ?e = "length (pre @ ''<'' @ n @ ?body)"
  have lt: "current_char ?inp (length pre) = ''<''"
    using current_char_at[of pre "CHR ''<''" "n @ ?body @ ''/>'' @ rest"] by simp
  from ne ok have "\<not> isspace (hd n)" by (cases n) auto
  with ne have s1: "skip_whitespace ?inp (length pre + 1) = ?p"
    using skip_whitespace_at[of "n @ ?body @ ''/>'' @ rest" "pre @ ''<''"] by simp
  have hd_body: "isspace (hd (?body @ ''/>'' @ rest)) \<or>
      hd (?body @ ''/>'' @ rest) \<in> set [CHR ''/'', CHR ''>'']"
  proof (cases as)
    case Nil
    then show ?thesis using t by (cases t) simp_all
  next
    case (Cons a as')
    with lead obtain c L' where "a_lead a = c # L'" by (cases "a_lead a") auto
    moreover from as Cons have "list_all isspace (a_lead a)" by (simp add: attr_ok_def)
    ultimately show ?thesis using Cons by (simp add: attr_text_def)
  qed
  have tn0: "parse_tag_name ?inp ?p = Inr (n, ?q)"
    using parse_tag_name_at[OF ne ok, of "?body @ ''/>'' @ rest" "pre @ ''<''"] hd_body
    by simp
  have tn: "parse_tag_name ?inp (skip_whitespace ?inp (length pre + 1)) = Inr (n, ?q)"
    unfolding s1 by (rule tn0)
  have "parse_attributes ?inp ?q [] = Inr (collect_attrs [] as, ?e)"
    using parse_attributes_at[OF as t, of "''/>'' @ rest" "pre @ ''<'' @ n" "[]"] by simp
  then have at: "parse_attributes ?inp (skip_whitespace ?inp ?q) []
      = Inr (collect_attrs [] as, ?e)"
    by (simp only: parse_attributes_skip)
  have s2: "skip_whitespace ?inp ?e = ?e"
    using skip_whitespace_at[of "''/>'' @ rest" "pre @ ''<'' @ n @ ?body"] by simp
  have sc: "startswith ?inp (skip_whitespace ?inp ?e) ''/>''"
    unfolding s2 using startswith_at[of "pre @ ''<'' @ n @ ?body" "''/>''" rest] by simp
  have "parse_element ?inp (length pre)
      = Inr (SSMLTag n (collect_attrs [] as) [], skip_whitespace ?inp ?e + 2)"
    by (rule parse_element_selfclose[OF lt tn at sc])
  then show ?thesis using s2 by simp
qed

lemma parseSSML_accept:
  assumes "parse_element inp (skip_whitespace inp 0) = Inr (SSMLTag ''speak'' at cs, length inp)"
  shows "parseSSML inp = Inr (SSMLTag ''speak'' at cs)"
proof -
  from parse_element_is_tag[OF assms] have lt: "current_char inp (skip_whitespace inp 0) = ''<''"
    by simp
  then have inb: "\<not> length inp \<le> skip_whitespace inp 0" by (simp add: current_char_eq)
  have se: "skip_whitespace inp (length inp) = length inp"
    by (simp add: skip_whitespace_def advance_while_beyond)
  from lt inb se assms show ?thesis by (simp add: parseSSML_def parse_unfold)
qed

lemma parseSSML_speak_attrs:
  assumes as: "list_all attr_ok as" and lead: "as = [] \<or> a_lead (hd as) \<noteq> []"
    and t: "list_all isspace t"
  shows "parseSSML (''<speak'' @ concat (map attr_text as) @ t @ ''/>'')
           = Inr (SSMLTag ''speak'' (collect_attrs [] as) [])"
proof -
  let ?inp = "''<speak'' @ concat (map attr_text as) @ t @ ''/>''"
  have v: "''speak'' \<noteq> []"
    "\<forall>c\<in>set ''speak''. \<not> isspace c \<and> c \<notin> set [CHR ''/'', CHR ''>'']"
    by (simp_all add: isspace_def)
  have el: "parse_element ?inp 0 = Inr (SSMLTag ''speak'' (collect_attrs [] as) [], length ?inp)"
    using parse_element_attrs_selfclose[OF v as lead t, of "[]" "[]"] by simp
  have s0: "skip_whitespace ?inp 0 = 0"
    using skip_whitespace_at[of ?inp "[]"] by simp
  have "parse_element ?inp (skip_whitespace ?inp 0)
      = Inr (SSMLTag ''speak'' (collect_attrs [] as) [], length ?inp)"
    by (simp only: s0 el)
  then show ?thesis by (rule parseSSML_accept)
qed

lemma parse_attributes_distinct:
  "parse_attributes inp pos attrs = Inr (r, q) \<Longrightarrow> distinct (map fst attrs) \<Longrightarrow>
   distinct (map fst r)"
proof (induction inp pos attrs rule: parse_attributes.induct)
  case (1 inp pos attrs)
  show ?case
  proof (cases rule: parse_attributes_cases[where inp = inp and pos = pos and attrs = attrs])
    case stop
    with "1.prems" show ?thesis by simp
  next
    case (step attr_name p2 attr_value p5)
    from "1.prems"(2) have "distinct (map fst (AList.update attr_name attr_value attrs))"
      by (rule distinct_update)
    with "1.IH"[OF refl step(1) step(2) refl refl step(3) refl step(4) refl] "1.prems"(1) step(5)
    show ?thesis by simp
  qed (use "1.prems" in simp_all)
qed

lemma keys_collect_attrs:
  "fst ` set (collect_attrs attrs as) = fst ` set attrs \<union> a_name ` set as"
  unfolding collect_attrs_def
  by (induction as arbitrary: attrs) (auto simp: dom_update)

lemma parse_element_attrs_open:
  assumes ne: "n \<noteq> []" and ok: "\<forall>c\<in>set n. \<not> isspace c \<and> c \<notin> set [CHR ''/'', CHR ''>'']"
    and as: "list_all attr_ok as" and lead: "as = [] \<or> a_lead (hd as) \<noteq> []"
    and t: "list_all isspace t"
  shows "parse_element (pre @ ''<'' @ n @ concat (map attr_text as) @ t @ ''>'' @ rest)
           (length pre)
         = (case parse_children (pre @ ''<'' @ n @ concat (map attr_text as) @ t @ ''>'' @ rest)
                   (length (pre @ ''<'' @ n @ concat (map attr_text as) @ t @ ''>'')) n [] of
              Inl e \<Rightarrow> Inl e
            | Inr (cs, q) \<Rightarrow> Inr (SSMLTag n (collect_attrs [] as) cs, q))"
proof -
  let ?body = "concat (map attr_text as) @ t"
  let ?inp = "pre @ ''<'' @ n @ ?body @ ''>'' @ rest"
  let ?p = "length (pre @ ''<'')"
  let ?q = "length (pre @ ''<'' @ n)"
  let ?e = "length (pre @ ''<'' @ n @ ?body)"
  have lt: "current_char ?inp (length pre) = ''<''"
    using current_char_at[of pre "CHR ''<''" "n @ ?body @ ''>'' @ rest"] by simp
  from ne ok have "\<not> isspace (hd n)" by (cases n) auto
  with ne have s1: "skip_whitespace ?inp (length pre + 1) = ?p"
    using skip_whitespace_at[of "n @ ?body @ ''>'' @ rest" "pre @ ''<''"] by simp
  have hd_body: "isspace (hd (?body @ ''>'' @ rest)) \<or>
      hd (?body @ ''>'' @ rest) \<in> set [CHR ''/'', CHR ''>'']"
  proof (cases as)
    case Nil
    then show ?thesis using t by (cases t) simp_all
  next
    case (Cons a as')
    with lead obtain c L' where "a_lead a = c # L'" by (cases "a_lead a") auto
    moreover from as Cons have "list_all isspace (a_lead a)" by (simp add: attr_ok_def)
    ultimately show ?thesis using Cons by (simp add: attr_text_def)
  qed
  have tn0: "parse_tag_name ?inp ?p = Inr (n, ?q)"
    using parse_tag_name_at[OF ne ok, of "?body @ ''>'' @ rest" "pre @ ''<''"] hd_body
    by simp
  have tn: "parse_tag_name ?inp (skip_whitespace ?inp (length pre + 1)) = Inr (n, ?q)"
    unfolding s1 by (rule tn0)
  have "parse_attributes ?inp ?q [] = Inr (collect_attrs [] as, ?e)"
    using parse_attributes_at[OF as t, of "''>'' @ rest" "pre @ ''<'' @ n" "[]"] by simp
  then have at: "parse_attributes ?inp (skip_whitespace ?inp ?q) []
      = Inr (collect_attrs [] as, ?e)"
    by (simp only: parse_attributes_skip)
  have s2: "skip_whitespace ?inp ?e = ?e"
    using skip_whitespace_at[of "''>'' @ rest" "pre @ ''<'' @ n @ ?body"] by simp
  have nsc: "\<not> startswith ?inp (skip_whitespace ?inp ?e) ''/>''"
  proof -
    have "drop ?e ?inp = ''>'' @ rest" by simp
    then show ?thesis unfolding s2 startswith_def by simp
  qed
  have gt: "current_char ?inp (skip_whitespace ?inp ?e) = ''>''"
    unfolding s2 using current_char_at[of "pre @ ''<'' @ n @ ?body" "CHR ''>''" rest] by simp
  have "parse_element ?inp (length pre) =
     (case parse_children ?inp (skip_whitespace ?inp ?e + 1) n [] of
        Inl e \<Rightarrow> Inl e
      | Inr (cs, q) \<Rightarrow> Inr (SSMLTag n (collect_attrs [] as) cs, q))"
    by (rule parse_element_open[OF lt tn at nsc gt])
  then show ?thesis using s2 by simp
qed

lemma replace_single:
  "replace [a] new s = concat (map (\<lambda>c. if c = a then new else [c]) s)"
  by (induction s) auto

lemma escapeXMLChars_concat:
  "escapeXMLChars s =
     concat (map (\<lambda>c. if c = CHR ''<'' then ''&amp;lt;''
                       else if c = CHR ''>'' then ''&amp;gt;''
                       else if c = CHR ''&'' then ''&amp;'' else [c]) s)"
  unfolding escapeXMLChars_def replace_single
  by (induction s) auto

lemma unescape_escape_concat:
  "unescapeXMLChars (escapeXMLChars s) =
     concat (map (\<lambda>c. if c = CHR ''<'' then ''&lt;''
                       else if c = CHR ''>'' then ''&gt;'' else [c]) s)"
proof -
  let ?e = "\<lambda>c. if c = CHR ''<'' then ''&amp;lt;''
                       else if c = CHR ''>'' then ''&amp;gt;''
                       else if c = CHR ''&'' then ''&amp;'' else [c]"
  let ?u = "\<lambda>c. if c = CHR ''<'' then ''&lt;'' else if c = CHR ''>'' then ''&gt;'' else [c]"
  have lt: "replace ''&lt;'' ''<'' (concat (map ?e s)) = concat (map ?e s)"
    by (induction s) simp_all
  have gt: "replace ''&gt;'' ''>'' (concat (map ?e s)) = concat (map ?e s)"
    by (induction s) simp_all
  have amp: "replace ''&amp;'' ''&'' (concat (map ?e s)) = concat (map ?u s)"
    by (induction s) simp_all
  show ?thesis
    unfolding escapeXMLChars_concat unfolding unescapeXMLChars_def lt gt amp ..
qed

lemma length_unescape_escape:
  "length (unescapeXMLChars (escapeXMLChars s))
     = length s + 3 * length (filter (\<lambda>c. c = CHR ''<'' \<or> c = CHR ''>'') s)"
  unfolding unescape_escape_concat by (induction s) simp_all

lemma unescape_escape_iff:
  "(unescapeXMLChars (escapeXMLChars s) = s) = (CHR ''<'' \<notin> set s \<and> CHR ''>'' \<notin> set s)"
proof
  assume "unescapeXMLChars (escapeXMLChars s) = s"
  then have "length (unescapeXMLChars (escapeXMLChars s)) = length s" by simp
  then have "filter (\<lambda>c. c = CHR ''<'' \<or> c = CHR ''>'') s = []"
    unfolding length_unescape_escape by simp
  then show "CHR ''<'' \<notin> set s \<and> CHR ''>'' \<notin> set s"
    by (auto simp: filter_empty_conv)
next
  assume "CHR ''<'' \<notin> set s \<and> CHR ''>'' \<notin> set s"
  then show "unescapeXMLChars (escapeXMLChars s) = s"
    unfolding unescape_escape_concat by (induction s) auto
qed

lemma no_adjacent_text_Cons2:
  "no_adjacent_text (c # d # r)
     = (\<not> (is_SSMLText c \<and> is_SSMLText d) \<and> no_adjacent_text (d # r))"
  by (cases c; cases d) simp_all

lemma no_adjacent_text_single: "no_adjacent_text [c]"
  by (cases c) simp_all

lemma no_adjacent_text_snoc_tag:
  "no_adjacent_text (acc @ [SSMLTag n a c]) = no_adjacent_text acc"
proof (induction acc)
  case Nil
  show ?case by simp
next
  case (Cons x xs)
  then show ?case
    by (cases xs) (simp_all add: no_adjacent_text_Cons2 no_adjacent_text_single)
qed

lemma no_adjacent_text_snoc_text:
  "no_adjacent_text (acc @ [SSMLText t])
     = (no_adjacent_text acc \<and> (acc = [] \<or> \<not> is_SSMLText (last acc)))"
proof (induction acc)
  case Nil
  show ?case by simp
next
  case (Cons x xs)
  then show ?case
    by (cases xs) (auto simp: no_adjacent_text_Cons2 no_adjacent_text_single)
qed

lemma list_all_takeWhile: "list_all P (takeWhile P xs)"
  by (induction xs) simp_all

lemma parse_tag_name_valid:
  assumes "parse_tag_name inp pos = Inr (n, q)"
  shows "valid_tag_name n"
proof -
  let ?P = "\<lambda>c. \<not> isspace c \<and> c \<notin> set [CHR ''/'', CHR ''>'']"
  from assms have ne: "pos \<noteq> advance_while ?P inp pos"
    and n: "n = slice inp pos (advance_while ?P inp pos)"
    by (auto simp: parse_tag_name_def Let_def split: if_splits)
  from n have tw: "n = takeWhile ?P (drop pos inp)" by (simp only: slice_advance_while)
  from ne have "length (takeWhile ?P (drop pos inp)) \<noteq> 0"
    by (simp add: advance_while_takeWhile)
  with tw have "n \<noteq> []" by simp
  moreover from tw have "list_all ?P n" by (simp only: list_all_takeWhile)
  ultimately show ?thesis by (simp add: valid_tag_name_def)
qed

lemma parse_attr_name_valid:
  assumes "parse_attr_name inp pos = Inr (n, q)"
  shows "valid_attr_name n"
proof -
  let ?P = "\<lambda>c. \<not> isspace c \<and> c \<notin> set [CHR ''='', CHR ''/'', CHR ''>'']"
  from assms have ne: "pos \<noteq> advance_while ?P inp pos"
    and n: "n = slice inp pos (advance_while ?P inp pos)"
    by (auto simp: parse_attr_name_def Let_def split: if_splits)
  from n have tw: "n = takeWhile ?P (drop pos inp)" by (simp only: slice_advance_while)
  from ne have "length (takeWhile ?P (drop pos inp)) \<noteq> 0"
    by (simp add: advance_while_takeWhile)
  with tw have "n \<noteq> []" by simp
  moreover from tw have "list_all ?P n" by (simp only: list_all_takeWhile)
  ultimately show ?thesis by (simp add: valid_attr_name_def)
qed

lemma set_replace_subset: "set (replace old new s) \<subseteq> set s \<union> set new"
proof (induction old new s rule: replace.induct)
  case (1 old new)
  show ?case by auto
next
  case (2 old new c cs)
  show ?case
  proof (cases "old = []")
    case True
    from "2.IH"(1)[OF True] True show ?thesis by auto
  next
    case ne: False
    show ?thesis
    proof (cases "prefix old (c # cs)")
      case True
      from "2.IH"(2)[OF ne True] have "set (replace old new (drop (length old - 1) cs))
          \<subseteq> set (drop (length old - 1) cs) \<union> set new" .
      moreover have "set (drop (length old - 1) cs) \<subseteq> set cs" by (rule set_drop_subset)
      ultimately show ?thesis using ne True by auto
    next
      case False
      with "2.IH"(3)[OF ne False] ne show ?thesis by auto
    qed
  qed
qed

lemma unescapeXMLChars_no_quote:
  assumes "CHR 0x22 \<notin> set s"
  shows "CHR 0x22 \<notin> set (unescapeXMLChars s)"
proof -
  have 1: "CHR 0x22 \<notin> set (replace ''&lt;'' ''<'' s)"
    using set_replace_subset[of "''&lt;''" "''<''" s] assms by auto
  have 2: "CHR 0x22 \<notin> set (replace ''&gt;'' ''>'' (replace ''&lt;'' ''<'' s))"
    using set_replace_subset[of "''&gt;''" "''>''" "replace ''&lt;'' ''<'' s"] 1 by auto
  show ?thesis
    unfolding unescapeXMLChars_def
    using set_replace_subset[of "''&amp;''" "''&''"
        "replace ''&gt;'' ''>'' (replace ''&lt;'' ''<'' s)"] 2
    by auto
qed

lemma parse_attr_value_no_quote:
  assumes "parse_attr_value inp pos = Inr (v, q)"
  shows "CHR 0x22 \<notin> set v"
proof -
  let ?P = "\<lambda>c. [c] \<noteq> [CHR 0x22]"
  from assms have "v = unescapeXMLChars (slice inp (pos + 1) (advance_while ?P inp (pos + 1)))"
    by (auto simp: parse_attr_value_def Let_def split: if_splits)
  then have v: "v = unescapeXMLChars (takeWhile ?P (drop (pos + 1) inp))"
    by (simp only: slice_advance_while)
  have "list_all ?P (takeWhile ?P (drop (pos + 1) inp))" by (rule list_all_takeWhile)
  then have "CHR 0x22 \<notin> set (takeWhile ?P (drop (pos + 1) inp))"
    by (auto simp: list_all_iff)
  then show ?thesis unfolding v by (rule unescapeXMLChars_no_quote)
qed

lemma set_update_subset: "set (AList.update k v al) \<subseteq> insert (k, v) (set al)"
  by (induction al) auto

lemma parse_attributes_valid:
  "parse_attributes inp pos attrs = Inr (r, q) \<Longrightarrow>
   list_all (\<lambda>(k, v). valid_attr_name k \<and> CHR 0x22 \<notin> set v) attrs \<Longrightarrow>
   list_all (\<lambda>(k, v). valid_attr_name k \<and> CHR 0x22 \<notin> set v) r"
proof (induction inp pos attrs rule: parse_attributes.induct)
  case (1 inp pos attrs)
  show ?case
  proof (cases rule: parse_attributes_cases[where inp = inp and pos = pos and attrs = attrs])
    case stop
    with "1.prems" show ?thesis by simp
  next
    case (step attr_name p2 attr_value p5)
    from parse_attr_name_valid[OF step(2)] parse_attr_value_no_quote[OF step(4)] "1.prems"(2)
    have "list_all (\<lambda>(k, v). valid_attr_name k \<and> CHR 0x22 \<notin> set v)
            (AList.update attr_name attr_value attrs)"
      unfolding list_all_iff using set_update_subset[of attr_name attr_value attrs] by auto
    with "1.IH"[OF refl step(1) step(2) refl refl step(3) refl step(4) refl] "1.prems"(1) step(5)
    show ?thesis by simp
  qed (use "1.prems" in simp_all)
qed

lemma parse_text_stops:
  "parse_text inp pos = (text_node, p') \<Longrightarrow> length inp \<le> p' \<or> inp ! p' = CHR ''<''"
proof -
  assume "parse_text inp pos = (text_node, p')"
  then have p': "p' = advance_while (\<lambda>c. [c] \<noteq> ''<'') inp pos"
    by (auto simp: parse_text_def Let_def)
  show ?thesis
  proof (cases "p' < length inp")
    case True
    with advance_while_stop[of "\<lambda>c. [c] \<noteq> ''<''" inp pos] p' show ?thesis by simp
  next
    case False
    then show ?thesis by simp
  qed
qed

lemma parse_text_is_text: "parse_text inp pos = (text_node, p') \<Longrightarrow> is_SSMLText text_node"
  by (auto simp: parse_text_def Let_def)

lemma well_formed_aux:
  "\<forall>n q. parse_element inp pos = Inr (n, q) \<longrightarrow> well_formed n"
  "\<forall>r q. parse_children inp pos tag_name children = Inr (r, q) \<longrightarrow>
     list_all well_formed children \<longrightarrow> no_adjacent_text children \<longrightarrow>
     (children \<noteq> [] \<and> is_SSMLText (last children) \<longrightarrow>
        length inp \<le> pos \<or> inp ! pos = CHR ''<'') \<longrightarrow>
     list_all well_formed r \<and> no_adjacent_text r"
proof (induction inp pos and inp pos tag_name children rule: parse_element_parse_children.induct)
  case (1 inp pos)
  show ?case
  proof (intro allI impI)
    fix n q
    assume r: "parse_element inp pos = Inr (n, q)"
    show "well_formed n"
    proof (cases rule: parse_element_cases[where inp = inp and pos = pos])
      case (selfclose tn p2 at p4)
      from parse_attributes_valid[OF selfclose(3)] parse_attributes_distinct[OF selfclose(3)]
        parse_tag_name_valid[OF selfclose(2)]
      have "well_formed (SSMLTag tn at [])" by simp
      with r selfclose(5) show ?thesis by auto
    next
      case (children_ok tn p2 at p4 cs q')
      from children_ok(1) have nlt: "\<not> current_char inp pos \<noteq> ''<''" by simp
      from "1.IH"[OF nlt refl children_ok(2) refl refl children_ok(3) refl refl
          children_ok(4,5)] children_ok(6)
      have "list_all well_formed cs \<and> no_adjacent_text cs" by simp
      with parse_attributes_valid[OF children_ok(3)] parse_attributes_distinct[OF children_ok(3)]
        parse_tag_name_valid[OF children_ok(2)]
      have "well_formed (SSMLTag tn at cs)" by simp
      with r children_ok(7) show ?thesis by auto
    qed (use r in simp_all)
  qed
next
  case (2 inp pos tag_name children)
  show ?case
  proof (intro allI impI)
    fix r q
    assume r: "parse_children inp pos tag_name children = Inr (r, q)"
      and wf: "list_all well_formed children" and na: "no_adjacent_text children"
      and lt: "children \<noteq> [] \<and> is_SSMLText (last children) \<longrightarrow>
        length inp \<le> pos \<or> inp ! pos = CHR ''<''"
    show "list_all well_formed r \<and> no_adjacent_text r"
    proof (cases rule: parse_children_cases
        [where inp = inp and pos = pos and tag_name = tag_name and children = children])
      case (close_ok p2)
      with r wf na show ?thesis by auto
    next
      case (element_ok child p')
      from "2.IH"(1)[OF element_ok(1-3)] element_ok(4) have wfc: "well_formed child" by blast
      from parse_element_is_tag[OF element_ok(4)] obtain tn at cs
        where child: "child = SSMLTag tn at cs" by blast
      from wf wfc have 1: "list_all well_formed (children @ [child])" by simp
      from na have 2: "no_adjacent_text (children @ [child])"
        unfolding child by (simp only: no_adjacent_text_snoc_tag)
      have 3: "children @ [child] \<noteq> [] \<and> is_SSMLText (last (children @ [child])) \<longrightarrow>
        length inp \<le> p' \<or> inp ! p' = CHR ''<''"
        unfolding child by simp
      from "2.IH"(2)[OF element_ok(1-4) refl] r element_ok(5) 1 2 3 show ?thesis by simp
    next
      case (text_run text_node p')
      from text_run(1,3) have "\<not> (length inp \<le> pos \<or> inp ! pos = CHR ''<'')"
        by (simp add: current_char_def)
      with lt have nl: "children = [] \<or> \<not> is_SSMLText (last children)" by blast
      from parse_text_is_text[OF text_run(4)] obtain t where tn: "text_node = SSMLText t"
        by (cases text_node) auto
      from parse_text_nonempty[OF text_run(1,3,4)] have "well_formed text_node"
        unfolding tn by simp
      with wf have 1: "list_all well_formed (children @ [text_node])" by simp
      from na nl have 2: "no_adjacent_text (children @ [text_node])"
        unfolding tn by (simp only: no_adjacent_text_snoc_text)
      from parse_text_stops[OF text_run(4)]
      have 3: "children @ [text_node] \<noteq> [] \<and> is_SSMLText (last (children @ [text_node])) \<longrightarrow>
        length inp \<le> p' \<or> inp ! p' = CHR ''<''"
        by simp
      from "2.IH"(3)[OF text_run(1-3) text_run(4)[symmetric]] r text_run(5) 1 2 3
      show ?thesis by simp
    qed (use r in simp_all)
  qed
qed

lemma parse_element_well_formed:
  "parse_element inp pos = Inr (n, q) \<Longrightarrow> well_formed n"
  using well_formed_aux(1) by blast

lemma escapeXMLChars_no_lt: "CHR ''<'' \<notin> set (escapeXMLChars s)"
  unfolding escapeXMLChars_concat by (induction s) auto

lemma escapeXMLChars_no_quote:
  "CHR 0x22 \<notin> set s \<Longrightarrow> CHR 0x22 \<notin> set (escapeXMLChars s)"
  unfolding escapeXMLChars_concat by (induction s) auto

lemma escapeXMLChars_nonempty: "s \<noteq> [] \<Longrightarrow> escapeXMLChars s \<noteq> []"
  unfolding escapeXMLChars_concat by (cases s) auto

lemma parse_text_serialized:
  assumes ne: "t \<noteq> []" and cl: "CHR ''<'' \<notin> set t \<and> CHR ''>'' \<notin> set t"
    and rest: "rest = [] \<or> hd rest = CHR ''<''"
  shows "parse_text (pre @ escapeXMLChars t @ rest) (length pre)
           = (SSMLText t, length pre + length (escapeXMLChars t))"
proof -
  let ?P = "\<lambda>c. c \<noteq> CHR ''<''"
  from rest have "takeWhile ?P rest = []" by (cases rest) auto
  moreover have "\<And>x. x \<in> set (escapeXMLChars t) \<Longrightarrow> ?P x"
    using escapeXMLChars_no_lt[of t] by auto
  ultimately have tw: "takeWhile ?P (escapeXMLChars t @ rest) = escapeXMLChars t"
    by (simp add: takeWhile_append2)
  have d: "drop (length pre) (pre @ escapeXMLChars t @ rest) = escapeXMLChars t @ rest"
    by simp
  from cl have "unescapeXMLChars (escapeXMLChars t) = t" by (simp add: unescape_escape_iff)
  then show ?thesis by (simp only: parse_text_run d tw)
qed

lemma update_absent:
  "k \<notin> fst ` set al \<Longrightarrow> AList.update k v al = al @ [(k, v)]"
  by (induction al) auto

lemma collect_attrs_serialized:
  assumes "distinct (map fst (acc @ at))"
    and "list_all (\<lambda>(k, v). CHR ''<'' \<notin> set v \<and> CHR ''>'' \<notin> set v) at"
  shows "collect_attrs acc (map (\<lambda>(k, v). AttrSrc '' '' k [] [] (escapeXMLChars v)) at)
           = acc @ at"
  using assms
proof (induction at arbitrary: acc)
  case Nil
  show ?case by (simp add: collect_attrs_def)
next
  case (Cons x xs)
  obtain k v where x: "x = (k, v)" by (cases x)
  from Cons.prems(2) x have v: "unescapeXMLChars (escapeXMLChars v) = v"
    by (simp add: unescape_escape_iff)
  from Cons.prems(1) x have k: "k \<notin> fst ` set acc" by auto
  have "collect_attrs acc (map (\<lambda>(k, v). AttrSrc '' '' k [] [] (escapeXMLChars v)) (x # xs))
      = collect_attrs (AList.update k v acc)
          (map (\<lambda>(k, v). AttrSrc '' '' k [] [] (escapeXMLChars v)) xs)"
    by (simp add: collect_attrs_def x v)
  also have "\<dots> = collect_attrs (acc @ [(k, v)])
          (map (\<lambda>(k, v). AttrSrc '' '' k [] [] (escapeXMLChars v)) xs)"
    by (simp only: update_absent[OF k])
  also have "\<dots> = (acc @ [(k, v)]) @ xs"
  proof (rule Cons.IH)
    from Cons.prems(1) x show "distinct (map fst ((acc @ [(k, v)]) @ xs))" by simp
    from Cons.prems(2) show "list_all (\<lambda>(k, v). CHR ''<'' \<notin> set v \<and> CHR ''>'' \<notin> set v) xs"
      by simp
  qed
  finally show ?case by (simp add: x)
qed

lemma attrs_serialized_text:
  "concat (map attr_text (map (\<lambda>(k, v). AttrSrc '' '' k [] [] (escapeXMLChars v)) at))
     = concat (map (\<lambda>(key, val). '' '' @ key @ ''='' @ [CHR 0x22] @ escapeXMLChars val
                                      @ [CHR 0x22]) at)"
  by (induction at) (auto simp: attr_text_def)

lemma attrs_serialized_ok:
  assumes "list_all (\<lambda>(k, v). valid_attr_name k \<and> CHR 0x22 \<notin> set v) at"
  shows "list_all attr_ok (map (\<lambda>(k, v). AttrSrc '' '' k [] [] (escapeXMLChars v)) at)"
  using assms
  by (induction at)
     (auto simp: attr_ok_def valid_attr_name_def isspace_def escapeXMLChars_no_quote)

lemma ssmlNodeToText_tag_hd:
  "is_SSMLTag c \<Longrightarrow> well_formed c \<Longrightarrow>
   \<exists>x xs. ssmlNodeToText c = CHR ''<'' # x # xs \<and> x \<noteq> CHR ''/''"
proof -
  assume "is_SSMLTag c" and wf: "well_formed c"
  then obtain n at cs where c: "c = SSMLTag n at cs" by (cases c) auto
  from wf c obtain x n' where n: "n = x # n'" and "x \<noteq> CHR ''/''"
    by (cases n) (auto simp: valid_tag_name_def)
  then show ?thesis unfolding c ssmlNodeToText_tag by simp
qed

lemma roundtrip_children:
  assumes n: "valid_tag_name n"
    and IH: "\<And>c pre rest. c \<in> set cs \<Longrightarrow> is_SSMLTag c \<Longrightarrow>
       parse_element (pre @ ssmlNodeToText c @ rest) (length pre)
         = Inr (c, length pre + length (ssmlNodeToText c))"
    and wf: "list_all well_formed cs" and cl: "list_all clean cs" and na: "no_adjacent_text cs"
  shows "parse_children (pre @ concat (map ssmlNodeToText cs) @ ''</'' @ n @ ''>'' @ rest)
           (length pre) n acc
         = Inr (acc @ cs, length pre + length (concat (map ssmlNodeToText cs)) + length n + 3)"
  using IH wf cl na
proof (induction cs arbitrary: pre acc)
  case Nil
  from n have "n \<noteq> []" "\<forall>c\<in>set n. \<not> isspace c \<and> c \<notin> set [CHR ''/'', CHR ''>'']"
    by (simp_all add: valid_tag_name_def list_all_iff)
  from parse_children_closing[OF this, of pre rest n acc] show ?case by simp
next
  case (Cons c cs)
  let ?tail = "concat (map ssmlNodeToText cs) @ ''</'' @ n @ ''>'' @ rest"
  let ?inp = "pre @ ssmlNodeToText c @ ?tail"
  let ?p' = "length (pre @ ssmlNodeToText c)"
  from Cons.prems(2,3) have wfc: "well_formed c" and clc: "clean c"
    and wfs: "list_all well_formed cs" and cls: "list_all clean cs" by simp_all
  from Cons.prems(4) have nas: "no_adjacent_text cs"
    by (cases cs) (simp_all add: no_adjacent_text_Cons2)
  have rec: "parse_children ?inp ?p' n (acc @ [c])
      = Inr ((acc @ [c]) @ cs, ?p' + length (concat (map ssmlNodeToText cs)) + length n + 3)"
  proof -
    have "parse_children ((pre @ ssmlNodeToText c) @ ?tail) ?p' n (acc @ [c])
      = Inr ((acc @ [c]) @ cs, ?p' + length (concat (map ssmlNodeToText cs)) + length n + 3)"
    proof (rule Cons.IH[OF _ wfs cls nas])
      fix d pre' rest'
      assume "d \<in> set cs" "is_SSMLTag d"
      then show "parse_element (pre' @ ssmlNodeToText d @ rest') (length pre')
         = Inr (d, length pre' + length (ssmlNodeToText d))"
        using Cons.prems(1)[of d pre' rest'] by simp
    qed
    then show ?thesis by simp
  qed
  have step: "parse_children ?inp (length pre) n acc = parse_children ?inp ?p' n (acc @ [c])"
  proof (cases c)
    case (SSMLText t)
    from wfc clc SSMLText have t: "t \<noteq> []" "CHR ''<'' \<notin> set t \<and> CHR ''>'' \<notin> set t"
      by simp_all
    from escapeXMLChars_nonempty[OF t(1)] escapeXMLChars_no_lt[of t]
    obtain x xs where ser: "escapeXMLChars t = x # xs" and x: "x \<noteq> CHR ''<''"
      by (cases "escapeXMLChars t") auto
    have tl: "?tail = [] \<or> hd ?tail = CHR ''<''"
    proof (cases cs)
      case Nil
      then show ?thesis by simp
    next
      case (Cons d ds)
      with Cons.prems(4) SSMLText have "is_SSMLTag d"
        by (cases d) (simp_all add: no_adjacent_text_Cons2)
      moreover from wfs Cons have "well_formed d" by simp
      ultimately obtain y ys where "ssmlNodeToText d = CHR ''<'' # y # ys"
        using ssmlNodeToText_tag_hd by blast
      with Cons show ?thesis by simp
    qed
    have inb: "\<not> length ?inp \<le> length pre" using ser SSMLText by simp
    have ncl: "\<not> startswith ?inp (length pre) ''</''"
      using ser x SSMLText by (simp add: startswith_def)
    have nlt: "current_char ?inp (length pre) \<noteq> ''<''"
      using ser x SSMLText by (simp add: current_char_def nth_append)
    have tx: "parse_text ?inp (length pre) = (c, ?p')"
      using parse_text_serialized[OF t tl, of pre] SSMLText by simp
    show ?thesis by (rule parse_children_text[OF inb ncl nlt tx])
  next
    case (SSMLTag tn at ds)
    then have tag: "is_SSMLTag c" by simp
    from ssmlNodeToText_tag_hd[OF tag wfc]
    obtain x xs where ser: "ssmlNodeToText c = CHR ''<'' # x # xs" and x: "x \<noteq> CHR ''/''"
      by blast
    have inb: "\<not> length ?inp \<le> length pre" using ser by simp
    have ncl: "\<not> startswith ?inp (length pre) ''</''"
      using ser x by (simp add: startswith_def)
    have lt: "current_char ?inp (length pre) = ''<''"
      using ser by (simp add: current_char_def nth_append)
    have el: "parse_element ?inp (length pre) = Inr (c, ?p')"
      using Cons.prems(1)[of c pre ?tail] tag by simp
    show ?thesis
      unfolding parse_children_element[OF inb ncl lt] el by simp
  qed
  have "pre @ concat (map ssmlNodeToText (c # cs)) @ ''</'' @ n @ ''>'' @ rest = ?inp"
    by simp
  with step rec show ?case by simp
qed

lemma roundtrip_element:
  "is_SSMLTag t \<Longrightarrow> well_formed t \<Longrightarrow> clean t \<Longrightarrow>
   parse_element (pre @ ssmlNodeToText t @ rest) (length pre)
     = Inr (t, length pre + length (ssmlNodeToText t))"
proof (induction t arbitrary: pre rest)
  case (SSMLText x)
  then show ?case by simp
next
  case (SSMLTag n at cs)
  let ?as = "map (\<lambda>(k, v). AttrSrc '' '' k [] [] (escapeXMLChars v)) at"
  let ?cs = "concat (map ssmlNodeToText cs)"
  let ?open = "pre @ ''<'' @ n @ concat (map attr_text ?as) @ [] @ ''>''"
  let ?inp = "pre @ ''<'' @ n @ concat (map attr_text ?as) @ [] @ ''>'' @ ?cs @ ''</'' @ n @ ''>'' @ rest"
  from SSMLTag.prems(2) have n: "valid_tag_name n" and dist: "distinct (map fst at)"
    and ats: "list_all (\<lambda>(k, v). valid_attr_name k \<and> CHR 0x22 \<notin> set v) at"
    and wfs: "list_all well_formed cs" and na: "no_adjacent_text cs"
    by simp_all
  from SSMLTag.prems(3)
  have cla: "list_all (\<lambda>(k, v). CHR ''<'' \<notin> set v \<and> CHR ''>'' \<notin> set v) at"
    and cls: "list_all clean cs"
    by simp_all
  from n have nn: "n \<noteq> []" "\<forall>c\<in>set n. \<not> isspace c \<and> c \<notin> set [CHR ''/'', CHR ''>'']"
    by (simp_all add: valid_tag_name_def list_all_iff)
  have ok: "list_all attr_ok ?as" by (rule attrs_serialized_ok[OF ats])
  have lead: "?as = [] \<or> a_lead (hd ?as) \<noteq> []"
    by (cases at) (auto split: prod.splits)
  have col: "collect_attrs [] ?as = at"
    using collect_attrs_serialized[of "[]" at] dist cla by simp
  have ser: "ssmlNodeToText (SSMLTag n at cs)
      = ''<'' @ n @ concat (map attr_text ?as) @ [] @ ''>'' @ ?cs @ ''</'' @ n @ ''>''"
    by (simp only: ssmlNodeToText_tag attrs_serialized_text append_Nil)
  have IH': "parse_element (pre' @ ssmlNodeToText c @ rest') (length pre')
         = Inr (c, length pre' + length (ssmlNodeToText c))"
    if c: "c \<in> set cs" and tag: "is_SSMLTag c" for c pre' rest'
  proof -
    from wfs cls c have "well_formed c" "clean c" by (simp_all add: list_all_iff)
    from SSMLTag.IH[OF c tag this] show ?thesis .
  qed
  have ch: "parse_children (?open @ ?cs @ ''</'' @ n @ ''>'' @ rest) (length ?open) n []
      = Inr ([] @ cs, length ?open + length ?cs + length n + 3)"
    by (rule roundtrip_children[OF n IH' wfs cls na])
  have "parse_element ?inp (length pre)
      = (case parse_children ?inp (length ?open) n [] of
           Inl e \<Rightarrow> Inl e
         | Inr (cs', q) \<Rightarrow> Inr (SSMLTag n (collect_attrs [] ?as) cs', q))"
    using parse_element_attrs_open[OF nn ok lead, of "[]" pre "?cs @ ''</'' @ n @ ''>'' @ rest"]
    by simp
  moreover have "parse_children ?inp (length ?open) n []
      = Inr (cs, length ?open + length ?cs + length n + 3)"
    using ch by simp
  ultimately have "parse_element ?inp (length pre)
      = Inr (SSMLTag n at cs, length ?open + length ?cs + length n + 3)"
    by (simp only: col sum.case prod.case)
  then show ?case unfolding ser by simp
qed

lemma parseSSML_InrD:
  assumes "parseSSML s = Inr t"
  shows "\<exists>q attrs cs. parse_element s (skip_whitespace s 0) = Inr (t, q) \<and>
           t = SSMLTag ''speak'' attrs cs"
proof (cases "parse_element s (skip_whitespace s 0)")
  case (Inl e)
  with assms show ?thesis by (simp add: parseSSML_def parse_unfold split: if_splits)
next
  case (Inr b)
  obtain node q where b: "b = (node, q)" by (cases b)
  from assms Inr b have "t = node" "is_SSMLTag node" "node_name node = ''speak''"
    by (simp_all add: parseSSML_def parse_unfold split: if_splits)
  then obtain attrs cs where "t = SSMLTag ''speak'' attrs cs" by (cases node) auto
  with Inr b \<open>t = node\<close> show ?thesis by blast
qed

lemma roundtrip_clean:
  assumes "parseSSML s = Inr t" and "clean t"
  shows "parseSSML (ssmlNodeToText t) = Inr t"
proof -
  from parseSSML_InrD[OF assms(1)] obtain q attrs cs
    where el: "parse_element s (skip_whitespace s 0) = Inr (t, q)"
      and t: "t = SSMLTag ''speak'' attrs cs"
    by blast
  from parse_element_well_formed[OF el] have wf: "well_formed t" .
  from t have tag: "is_SSMLTag t" by simp
  let ?out = "ssmlNodeToText t"
  from roundtrip_element[OF tag wf assms(2), of "[]" "[]"]
  have pe: "parse_element ?out 0 = Inr (t, length ?out)" by simp
  from ssmlNodeToText_tag_hd[OF tag wf] obtain x xs where "?out = CHR ''<'' # x # xs"
    by blast
  then have "skip_whitespace ?out 0 = 0"
    using skip_whitespace_at[of ?out "[]"] by simp
  with pe have "parse_element ?out (skip_whitespace ?out 0)
      = Inr (SSMLTag ''speak'' attrs cs, length ?out)"
    by (simp add: t)
  then have "parseSSML ?out = Inr (SSMLTag ''speak'' attrs cs)" by (rule parseSSML_accept)
  then show ?thesis by (simp add: t)
qed

subsection \<open>The parser and the grammar of sources\<close>



























subsection \<open>Violations and their messages\<close>


























subsection \<open>The recursion limit\<close>




lemma parse_children_lim_0:
  "\<not> length inp \<le> pos \<Longrightarrow> parse_children_lim 0 inp pos tag_name children = Inl RecursionError"
  by (subst parse_children_lim.simps) simp



lemma speak_valid: "valid_tag_name ''speak''"
  by (simp add: valid_tag_name_def isspace_def)

lemma nested_text:
  "ssmlNodeToText (nested 0) = ''<speak></speak>''"
  "ssmlNodeToText (nested (Suc d)) = ''<speak>'' @ ssmlNodeToText (nested d) @ ''</speak>''"
  by simp_all

lemma nested_shape: "is_SSMLTag (nested d) \<and> well_formed (nested d) \<and> clean (nested d)"
  by (induction d) (simp_all add: speak_valid)

lemma parse_element_nested:
  "parse_element (pre @ ssmlNodeToText (nested d) @ rest) (length pre)
     = Inr (nested d, length pre + length (ssmlNodeToText (nested d)))"
  using nested_shape[of d] by (intro roundtrip_element) simp_all








subsection \<open>Failing inputs and their violations\<close>
















section \<open>Entity codec: escaping and unescaping\<close>

text \<open>
  Claim C2: \<open>unescapeXMLChars (escapeXMLChars s) = s\<close> for every \<open>s\<close> whose reserved characters
  are literal. \<^const>\<open>escapeXMLChars\<close> replaces \<open>&\<close> last, so the \<open>&\<close> of the \<open>&lt;\<close> it has
  just written is escaped again: the one-character string \<open><\<close> is escaped to \<open>&amp;lt;\<close>,
  which unescapes to \<open>&lt;\<close> and not to \<open><\<close>. In general, unescaping the escaped string
  gives the string with every \<open><\<close> and \<open>>\<close> still written as an entity, which is the string
  itself exactly when it holds neither character.
\<close>

theorem escape_unescape_lt:
  "escapeXMLChars ''<'' = ''&amp;lt;'' \<and>
   unescapeXMLChars (escapeXMLChars ''<'') = ''&lt;'' \<and>
   unescapeXMLChars (escapeXMLChars ''<'') \<noteq> ''<'' \<and>
   unescapeXMLChars (escapeXMLChars s) =
     concat (map (\<lambda>c. if c = CHR ''<'' then ''&lt;''
                       else if c = CHR ''>'' then ''&gt;'' else [c]) s) \<and>
   (unescapeXMLChars (escapeXMLChars s) = s) = (CHR ''<'' \<notin> set s \<and> CHR ''>'' \<notin> set s)"
proof (intro conjI)
  show "escapeXMLChars ''<'' = ''&amp;lt;''" by (simp add: escapeXMLChars_def)
  show "unescapeXMLChars (escapeXMLChars ''<'') = ''&lt;''"
    by (simp add: unescapeXMLChars_def escapeXMLChars_def)
  show "unescapeXMLChars (escapeXMLChars ''<'') \<noteq> ''<''"
    by (simp add: unescapeXMLChars_def escapeXMLChars_def)
  show "unescapeXMLChars (escapeXMLChars s) =
     concat (map (\<lambda>c. if c = CHR ''<'' then ''&lt;''
                       else if c = CHR ''>'' then ''&gt;'' else [c]) s)"
    by (rule unescape_escape_concat)
  show "(unescapeXMLChars (escapeXMLChars s) = s) = (CHR ''<'' \<notin> set s \<and> CHR ''>'' \<notin> set s)"
    by (rule unescape_escape_iff)
qed

section \<open>Round trip through the serializer\<close>

text \<open>
  Claim C1: \<open>parseSSML (ssmlNodeToText t) = Inr t\<close> for every tree \<open>t\<close> that \<^const>\<open>parseSSML\<close>
  returns. The input \<open><speak>></speak>\<close> is accepted with the text child \<open>>\<close>; the serializer
  writes that child as \<open>&amp;gt;\<close>, and parsing the output gives the text child \<open>&gt;\<close>.
  The round trip does hold for every accepted input whose tree is clean, that is, has no
  \<open><\<close> and no \<open>>\<close> in a text or an attribute value: only the escaping of these two
  characters stands between the code and the claim.
\<close>

theorem roundtrip_gt:
  "parseSSML ''<speak>></speak>'' = Inr (SSMLTag ''speak'' [] [SSMLText ''>'']) \<and>
   ssmlNodeToText (SSMLTag ''speak'' [] [SSMLText ''>'']) = ''<speak>&amp;gt;</speak>'' \<and>
   parseSSML (ssmlNodeToText (SSMLTag ''speak'' [] [SSMLText ''>'']))
     = Inr (SSMLTag ''speak'' [] [SSMLText ''&gt;'']) \<and>
   (parseSSML s = Inr t \<and> clean t \<longrightarrow> parseSSML (ssmlNodeToText t) = Inr t)"
proof (intro conjI impI)
  show "parseSSML ''<speak>></speak>'' = Inr (SSMLTag ''speak'' [] [SSMLText ''>''])"
    by code_simp
  show "ssmlNodeToText (SSMLTag ''speak'' [] [SSMLText ''>'']) = ''<speak>&amp;gt;</speak>''"
    by code_simp
  show "parseSSML (ssmlNodeToText (SSMLTag ''speak'' [] [SSMLText ''>'']))
     = Inr (SSMLTag ''speak'' [] [SSMLText ''&gt;''])"
    by code_simp
next
  assume "parseSSML s = Inr t \<and> clean t"
  then show "parseSSML (ssmlNodeToText t) = Inr t" using roundtrip_clean by blast
qed

theorem roundtrip_gt_witness:
  "parseSSML (ssmlNodeToText
      (SSMLTag ''speak'' [(''a'', ''1 & 2'')] [SSMLText '' x '', SSMLTag ''br'' [] []]))
     = Inr (SSMLTag ''speak'' [(''a'', ''1 & 2'')] [SSMLText '' x '', SSMLTag ''br'' [] []])"
proof -
  let ?t = "SSMLTag ''speak'' [(''a'', ''1 & 2'')] [SSMLText '' x '', SSMLTag ''br'' [] []]"
  have "parseSSML ''< speak  a = \"1 &amp; 2\" > x <br /></speak >'' = Inr ?t \<and> clean ?t"
    by code_simp
  with roundtrip_gt[of "''< speak  a = \"1 &amp; 2\" > x <br /></speak >''" ?t]
  show ?thesis by blast
qed

section \<open>Root validation\<close>

text \<open>
  Claim C3: \<^const>\<open>parseSSML\<close> returns a tree exactly when, after the leading whitespace, one
  element starts at \<open><\<close>, only whitespace follows it, and that element is a tag named
  \<open>speak\<close>. The characters skipped before the root are whitespace. A character that is not
  whitespace after the root element gives the error for extra content, a root of another name
  the error for the root name, as for \<open><foo></foo>\<close>.
\<close>

theorem parseSSML_root:
  "(parseSSML inp = Inr t) =
     (\<exists>q attrs cs.
        skip_whitespace inp 0 < length inp \<and> inp ! skip_whitespace inp 0 = CHR ''<'' \<and>
        parse_element inp (skip_whitespace inp 0) = Inr (t, q) \<and>
        (\<forall>i. q \<le> i \<and> i < length inp \<longrightarrow> isspace (inp ! i)) \<and>
        t = SSMLTag ''speak'' attrs cs) \<and>
   (\<forall>i. i < skip_whitespace inp 0 \<longrightarrow> isspace (inp ! i)) \<and>
   (parse_element inp (skip_whitespace inp 0) = Inr (t, q) \<and>
      (\<exists>i. q \<le> i \<and> i < length inp \<and> \<not> isspace (inp ! i)) \<longrightarrow>
      parseSSML inp = Inl (ValueError ''Extra content after root element'')) \<and>
   (parse_element inp (skip_whitespace inp 0) = Inr (t, q) \<and>
      (\<forall>i. q \<le> i \<and> i < length inp \<longrightarrow> isspace (inp ! i)) \<and> node_name t \<noteq> ''speak'' \<longrightarrow>
      parseSSML inp = Inl (ValueError ''Root element must be <speak>'')) \<and>
   parseSSML ''<foo></foo>'' = Inl (ValueError ''Root element must be <speak>'')"
proof -
  let ?a = "skip_whitespace inp 0"
  have trail: "(skip_whitespace inp q' = length inp) = (\<forall>i. q' \<le> i \<and> i < length inp \<longrightarrow> isspace (inp ! i))"
    if "q' \<le> length inp" for q'
    unfolding skip_whitespace_def by (rule advance_while_eq_length[OF that])
  have lead: "\<forall>i. i < ?a \<longrightarrow> isspace (inp ! i)"
    unfolding skip_whitespace_def using advance_while_all[of 0 _ isspace inp] by simp
  have ok: "parseSSML inp = Inr t" 
    if el: "parse_element inp ?a = Inr (t, q')"
      and ws: "\<forall>i. q' \<le> i \<and> i < length inp \<longrightarrow> isspace (inp ! i)"
      and nm: "t = SSMLTag ''speak'' attrs cs" for q' attrs cs
  proof -
    from parse_element_is_tag[OF el] have lt: "current_char inp ?a = ''<''" by simp
    then have inb: "\<not> length inp \<le> ?a" by (simp add: current_char_eq)
    from parse_element_progress[OF el] have "q' \<le> length inp" by simp
    from trail[OF this] ws have "skip_whitespace inp q' = length inp" by simp
    with lt inb el nm show ?thesis by (simp add: parseSSML_def parse_unfold)
  qed
  have extra: "parseSSML inp = Inl (ValueError ''Extra content after root element'')"
    if el: "parse_element inp ?a = Inr (t, q)"
      and nws: "\<exists>i. q \<le> i \<and> i < length inp \<and> \<not> isspace (inp ! i)"
  proof -
    from parse_element_is_tag[OF el] have lt: "current_char inp ?a = ''<''" by simp
    then have inb: "\<not> length inp \<le> ?a" by (simp add: current_char_eq)
    from parse_element_progress[OF el] have "q \<le> length inp" by simp
    from trail[OF this] nws have "skip_whitespace inp q \<noteq> length inp" by blast
    with lt inb el show ?thesis by (simp add: parseSSML_def parse_unfold)
  qed
  have root: "parseSSML inp = Inl (ValueError ''Root element must be <speak>'')"
    if el: "parse_element inp ?a = Inr (t, q)"
      and ws: "\<forall>i. q \<le> i \<and> i < length inp \<longrightarrow> isspace (inp ! i)"
      and nm: "node_name t \<noteq> ''speak''"
  proof -
    from parse_element_is_tag[OF el] have lt: "current_char inp ?a = ''<''" by simp
    then have inb: "\<not> length inp \<le> ?a" by (simp add: current_char_eq)
    from parse_element_progress[OF el] have "q \<le> length inp" by simp
    from trail[OF this] ws have "skip_whitespace inp q = length inp" by simp
    with lt inb el nm show ?thesis by (simp add: parseSSML_def parse_unfold)
  qed
  have only: "\<exists>q attrs cs.
        ?a < length inp \<and> inp ! ?a = CHR ''<'' \<and>
        parse_element inp ?a = Inr (t, q) \<and>
        (\<forall>i. q \<le> i \<and> i < length inp \<longrightarrow> isspace (inp ! i)) \<and>
        t = SSMLTag ''speak'' attrs cs"
    if acc: "parseSSML inp = Inr t"
  proof -
    from acc have p: "parse inp = Inr t" by (simp add: parseSSML_def)
    have lt: "current_char inp ?a = ''<''"
    proof (rule ccontr)
      assume "current_char inp ?a \<noteq> ''<''"
      with p show False by (simp add: parse_unfold)
    qed
    then have inb: "?a < length inp" "inp ! ?a = CHR ''<''" by (simp_all add: current_char_eq)
    show ?thesis
    proof (cases "parse_element inp ?a")
      case (Inl e)
      with p lt inb show ?thesis by (simp add: parse_unfold)
    next
      case (Inr b)
      obtain node q' where b: "b = (node, q')" by (cases b)
      note el = Inr[unfolded b]
      from p lt inb el have fin: "skip_whitespace inp q' = length inp"
        and tag: "is_SSMLTag node" "node_name node = ''speak''" and t: "t = node"
        by (simp_all add: parse_unfold split: if_splits)
      from parse_element_progress[OF el] have "q' \<le> length inp" by simp
      from trail[OF this] fin have ws: "\<forall>i. q' \<le> i \<and> i < length inp \<longrightarrow> isspace (inp ! i)"
        by simp
      from tag obtain attrs cs where "node = SSMLTag ''speak'' attrs cs"
        by (cases node) auto
      with inb el ws t show ?thesis by blast
    qed
  qed
  have ex: "parseSSML ''<foo></foo>'' = Inl (ValueError ''Root element must be <speak>'')"
    by code_simp
  from ok only have iff: "(parseSSML inp = Inr t) =
     (\<exists>q attrs cs.
        ?a < length inp \<and> inp ! ?a = CHR ''<'' \<and>
        parse_element inp ?a = Inr (t, q) \<and>
        (\<forall>i. q \<le> i \<and> i < length inp \<longrightarrow> isspace (inp ! i)) \<and>
        t = SSMLTag ''speak'' attrs cs)"
    by blast
  from iff lead extra root ex show ?thesis by blast
qed

theorem parseSSML_root_witness:
  "parseSSML '' <speak/> x'' = Inl (ValueError ''Extra content after root element'') \<and>
   parseSSML '' <voice/> '' = Inl (ValueError ''Root element must be <speak>'') \<and>
   parseSSML '' <speak/> '' = Inr (SSMLTag ''speak'' [] [])"
proof -
  have e1: "parse_element '' <speak/> x'' (skip_whitespace '' <speak/> x'' 0)
              = Inr (SSMLTag ''speak'' [] [], 9)"
    by code_simp
  have n1: "\<exists>i. 9 \<le> i \<and> i < length '' <speak/> x'' \<and> \<not> isspace ('' <speak/> x'' ! i)"
    by (rule exI[of _ 10]) (simp add: isspace_def)
  from parseSSML_root[of "'' <speak/> x''" "SSMLTag ''speak'' [] []" 9] e1 n1
  have r1: "parseSSML '' <speak/> x'' = Inl (ValueError ''Extra content after root element'')"
    by blast
  have ws: "\<forall>i. 9 \<le> i \<and> i < length s \<longrightarrow> isspace (s ! i)"
    if "length s = 10" "s ! 9 = CHR '' ''" for s
  proof (intro allI impI)
    fix i assume "9 \<le> i \<and> i < length s"
    with that have "i = 9" by simp
    with that show "isspace (s ! i)" by (simp add: isspace_def)
  qed
  have e2: "parse_element '' <voice/> '' (skip_whitespace '' <voice/> '' 0)
              = Inr (SSMLTag ''voice'' [] [], 9)"
    by code_simp
  have w2: "\<forall>i. 9 \<le> i \<and> i < length '' <voice/> '' \<longrightarrow> isspace ('' <voice/> '' ! i)"
    by (rule ws) simp_all
  from parseSSML_root[of "'' <voice/> ''" "SSMLTag ''voice'' [] []" 9] e2 w2
  have r2: "parseSSML '' <voice/> '' = Inl (ValueError ''Root element must be <speak>'')"
    by simp
  have e3: "parse_element '' <speak/> '' (skip_whitespace '' <speak/> '' 0)
              = Inr (SSMLTag ''speak'' [] [], 9)"
    by code_simp
  have s3: "skip_whitespace '' <speak/> '' 0 = 1" by code_simp
  have w3: "\<forall>i. 9 \<le> i \<and> i < length '' <speak/> '' \<longrightarrow> isspace ('' <speak/> '' ! i)"
    by (rule ws) simp_all
  have "\<exists>q attrs cs.
        skip_whitespace '' <speak/> '' 0 < length '' <speak/> '' \<and>
        '' <speak/> '' ! skip_whitespace '' <speak/> '' 0 = CHR ''<'' \<and>
        parse_element '' <speak/> '' (skip_whitespace '' <speak/> '' 0)
          = Inr (SSMLTag ''speak'' [] [], q) \<and>
        (\<forall>i. q \<le> i \<and> i < length '' <speak/> '' \<longrightarrow> isspace ('' <speak/> '' ! i)) \<and>
        SSMLTag ''speak'' [] [] = SSMLTag ''speak'' attrs cs"
    using e3 w3 by (intro exI[of _ 9] exI[of _ "[]"]) (simp add: s3)
  with parseSSML_root[of "'' <speak/> ''" "SSMLTag ''speak'' [] []"]
  have r3: "parseSSML '' <speak/> '' = Inr (SSMLTag ''speak'' [] [])"
    by blast
  from r1 r2 r3 show ?thesis by simp
qed

section \<open>Errors\<close>




section \<open>Text nodes\<close>

text \<open>
  Claim C5, amended: the parser never yields a text node with empty content. The loop of
  \<^const>\<open>parse_children\<close> reads a text node only where the current character is not \<open><\<close>,
  so the run has at least one character, and decoding a non-empty run gives a non-empty string.
  Where a tag follows another tag directly, the next child is the element that starts there.
\<close>

theorem text_nodes_nonempty:
  "(parseSSML inp = Inr t \<longrightarrow> no_empty_text t) \<and>
   (parse_element inp pos = Inr (n, q) \<longrightarrow> no_empty_text n) \<and>
   (\<not> length inp \<le> pos \<and> \<not> startswith inp pos ''</'' \<and> current_char inp pos = ''<'' \<and>
      parse_element inp pos = Inr (child, p') \<longrightarrow>
      (\<exists>tn at cs. child = SSMLTag tn at cs) \<and>
      parse_children inp pos tag_name children
        = parse_children inp p' tag_name (children @ [child]))"
proof (intro conjI impI)
  assume "parseSSML inp = Inr t"
  then obtain q' where "parse_element inp (skip_whitespace inp 0) = Inr (t, q')"
    by (auto simp: parseSSML_def parse_unfold split: if_splits sum.splits)
  then show "no_empty_text t" using no_empty_text_aux(1) by blast
next
  assume "parse_element inp pos = Inr (n, q)"
  then show "no_empty_text n" using no_empty_text_aux(1) by blast
next
  assume h: "\<not> length inp \<le> pos \<and> \<not> startswith inp pos ''</'' \<and> current_char inp pos = ''<'' \<and>
      parse_element inp pos = Inr (child, p')"
  then show "\<exists>tn at cs. child = SSMLTag tn at cs" using parse_element_is_tag by blast
  from h show "parse_children inp pos tag_name children
        = parse_children inp p' tag_name (children @ [child])"
    by (simp add: parse_children_element)
qed

theorem text_nodes_nonempty_witness:
  "no_empty_text (SSMLTag ''speak'' [] [SSMLTag ''a'' [] [SSMLText '' ''], SSMLTag ''b'' [] []]) \<and>
   no_empty_text (SSMLTag ''a'' [] [SSMLText '' '']) \<and>
   parse_children ''<speak><a> </a><b></b></speak>'' 15 ''speak'' [SSMLTag ''a'' [] [SSMLText '' '']]
     = parse_children ''<speak><a> </a><b></b></speak>'' 22 ''speak''
         [SSMLTag ''a'' [] [SSMLText '' ''], SSMLTag ''b'' [] []]"
proof -
  let ?inp = "''<speak><a> </a><b></b></speak>''"
  have "parseSSML ?inp
     = Inr (SSMLTag ''speak'' [] [SSMLTag ''a'' [] [SSMLText '' ''], SSMLTag ''b'' [] []])"
    by code_simp
  with text_nodes_nonempty[where inp = ?inp
      and t = "SSMLTag ''speak'' [] [SSMLTag ''a'' [] [SSMLText '' ''], SSMLTag ''b'' [] []]"]
  have a: "no_empty_text
      (SSMLTag ''speak'' [] [SSMLTag ''a'' [] [SSMLText '' ''], SSMLTag ''b'' [] []])"
    by blast
  have "parse_element ?inp 7 = Inr (SSMLTag ''a'' [] [SSMLText '' ''], 15)" by code_simp
  with text_nodes_nonempty[where inp = ?inp and pos = 7
      and n = "SSMLTag ''a'' [] [SSMLText '' '']" and q = 15]
  have b: "no_empty_text (SSMLTag ''a'' [] [SSMLText '' ''])" by blast
  have "\<not> length ?inp \<le> 15 \<and> \<not> startswith ?inp 15 ''</'' \<and> current_char ?inp 15 = ''<'' \<and>
      parse_element ?inp 15 = Inr (SSMLTag ''b'' [] [], 22)"
    by code_simp
  with text_nodes_nonempty[where inp = ?inp and pos = 15 and child = "SSMLTag ''b'' [] []"
      and p' = 22 and tag_name = "''speak''" and children = "[SSMLTag ''a'' [] [SSMLText '' '']]"]
  have c: "parse_children ?inp 15 ''speak'' [SSMLTag ''a'' [] [SSMLText '' '']]
     = parse_children ?inp 22 ''speak'' ([SSMLTag ''a'' [] [SSMLText '' '']] @ [SSMLTag ''b'' [] []])"
    by blast
  from a b c show ?thesis by simp
qed

text \<open>
  Between \<open></a>\<close> and \<open><b>\<close> the run of text is empty, and the children of \<open>speak\<close> are the
  two tags only: no text node stands between them.
\<close>

theorem adjacent_tags_no_text_node:
  "parseSSML ''<speak><a></a><b></b></speak>''
     = Inr (SSMLTag ''speak'' [] [SSMLTag ''a'' [] [], SSMLTag ''b'' [] []])"
  by code_simp

section \<open>Whitespace in text content\<close>



section \<open>Closing tags\<close>

text \<open>
  Claim C7: a closing tag \<open></b>\<close> met by the loop for the open tag \<open>a\<close> ends the loop when
  \<open>b = a\<close>, an equality of strings and so case-sensitive, and otherwise raises the error that
  names \<open>a\<close> as expected and \<open>b\<close> as found; whitespace around the name is allowed. At the
  end of the input the loop raises the error that names the open tag \<open>a\<close>. An error of a nested
  call is the error of the caller, up to \<^const>\<open>parseSSML\<close>.
\<close>

theorem closing_tag_must_match:
  "(b \<noteq> [] \<and> (\<forall>c\<in>set b. \<not> isspace c \<and> c \<notin> set [CHR ''/'', CHR ''>'']) \<longrightarrow>
      parse_children (pre @ ''</'' @ b @ ''>'' @ rest) (length pre) a cs =
        (if b = a then Inr (cs, length pre + length b + 3)
         else Inl (ValueError (''Mismatched closing tag: expected </'' @ a
                                 @ ''> but found </'' @ b @ ''>'')))) \<and>
   (\<not> length inp \<le> pos \<and> startswith inp pos ''</'' \<and>
      parse_tag_name inp (skip_whitespace inp (pos + 2)) = Inr (b, p2) \<and>
      skip_whitespace inp p2 < length inp \<and> inp ! skip_whitespace inp p2 = CHR ''>'' \<longrightarrow>
      parse_children inp pos a cs =
        (if b = a then Inr (cs, skip_whitespace inp p2 + 1)
         else Inl (ValueError (''Mismatched closing tag: expected </'' @ a
                                 @ ''> but found </'' @ b @ ''>'')))) \<and>
   (length inp \<le> pos \<longrightarrow>
      parse_children inp pos a cs = Inl (ValueError (''Missing closing tag for <'' @ a @ ''>''))) \<and>
   (\<not> length inp \<le> pos \<and> \<not> startswith inp pos ''</'' \<and> current_char inp pos = ''<'' \<and>
      parse_element inp pos = Inl e \<longrightarrow> parse_children inp pos a cs = Inl e) \<and>
   (current_char inp pos = ''<'' \<and>
      parse_tag_name inp (skip_whitespace inp (pos + 1)) = Inr (tn, p2) \<and>
      parse_attributes inp (skip_whitespace inp p2) [] = Inr (at, p4) \<and>
      \<not> startswith inp (skip_whitespace inp p4) ''/>'' \<and>
      current_char inp (skip_whitespace inp p4) = ''>'' \<and>
      parse_children inp (skip_whitespace inp p4 + 1) tn [] = Inl e \<longrightarrow>
      parse_element inp pos = Inl e) \<and>
   (current_char inp (skip_whitespace inp 0) = ''<'' \<and>
      parse_element inp (skip_whitespace inp 0) = Inl e \<longrightarrow> parseSSML inp = Inl e) \<and>
   parseSSML ''<speak><voice></speak>''
     = Inl (ValueError ''Mismatched closing tag: expected </voice> but found </speak>'') \<and>
   parseSSML ''<speak></Speak>''
     = Inl (ValueError ''Mismatched closing tag: expected </speak> but found </Speak>'') \<and>
   parseSSML ''<speak><voice>'' = Inl (ValueError ''Missing closing tag for <voice>'')"
proof (intro conjI impI)
  assume "b \<noteq> [] \<and> (\<forall>c\<in>set b. \<not> isspace c \<and> c \<notin> set [CHR ''/'', CHR ''>''])"
  then show "parse_children (pre @ ''</'' @ b @ ''>'' @ rest) (length pre) a cs =
        (if b = a then Inr (cs, length pre + length b + 3)
         else Inl (ValueError (''Mismatched closing tag: expected </'' @ a
                                 @ ''> but found </'' @ b @ ''>'')))"
    using parse_children_closing[of b pre rest a cs] by blast
next
  assume h: "\<not> length inp \<le> pos \<and> startswith inp pos ''</'' \<and>
      parse_tag_name inp (skip_whitespace inp (pos + 2)) = Inr (b, p2) \<and>
      skip_whitespace inp p2 < length inp \<and> inp ! skip_whitespace inp p2 = CHR ''>''"
  then have gt: "current_char inp (skip_whitespace inp p2) = ''>''"
    by (simp add: current_char_eq)
  from h have "parse_children inp pos a cs =
     (if length inp \<le> skip_whitespace inp p2 \<or> current_char inp (skip_whitespace inp p2) \<noteq> ''>''
      then Inl (ValueError (''Expected '>' at end of closing tag at position ''
                              @ str_nat (skip_whitespace inp p2)))
      else if b \<noteq> a
      then Inl (ValueError (''Mismatched closing tag: expected </'' @ a
                              @ ''> but found </'' @ b @ ''>''))
      else Inr (cs, skip_whitespace inp p2 + 1))"
    using parse_children_close[of inp pos b p2 a cs] by blast
  with h gt show "parse_children inp pos a cs =
        (if b = a then Inr (cs, skip_whitespace inp p2 + 1)
         else Inl (ValueError (''Mismatched closing tag: expected </'' @ a
                                 @ ''> but found </'' @ b @ ''>'')))"
    by simp
next
  assume "length inp \<le> pos"
  then show "parse_children inp pos a cs
      = Inl (ValueError (''Missing closing tag for <'' @ a @ ''>''))"
    by (rule parse_children_eof)
next
  assume "\<not> length inp \<le> pos \<and> \<not> startswith inp pos ''</'' \<and> current_char inp pos = ''<'' \<and>
      parse_element inp pos = Inl e"
  then show "parse_children inp pos a cs = Inl e"
    by (simp add: parse_children_element)
next
  assume h: "current_char inp pos = ''<'' \<and>
      parse_tag_name inp (skip_whitespace inp (pos + 1)) = Inr (tn, p2) \<and>
      parse_attributes inp (skip_whitespace inp p2) [] = Inr (at, p4) \<and>
      \<not> startswith inp (skip_whitespace inp p4) ''/>'' \<and>
      current_char inp (skip_whitespace inp p4) = ''>'' \<and>
      parse_children inp (skip_whitespace inp p4 + 1) tn [] = Inl e"
  then have "parse_element inp pos =
     (case parse_children inp (skip_whitespace inp p4 + 1) tn [] of
        Inl e \<Rightarrow> Inl e
      | Inr (cs, q) \<Rightarrow> Inr (SSMLTag tn at cs, q))"
    using parse_element_open[of inp pos tn p2 at p4] by blast
  with h show "parse_element inp pos = Inl e" by (simp only: sum.case)
next
  assume h: "current_char inp (skip_whitespace inp 0) = ''<'' \<and>
      parse_element inp (skip_whitespace inp 0) = Inl e"
  then have "\<not> length inp \<le> skip_whitespace inp 0" by (simp add: current_char_eq)
  with h show "parseSSML inp = Inl e" by (simp add: parseSSML_def parse_unfold)
next
  show "parseSSML ''<speak><voice></speak>''
     = Inl (ValueError ''Mismatched closing tag: expected </voice> but found </speak>'')"
    by code_simp
  show "parseSSML ''<speak></Speak>''
     = Inl (ValueError ''Mismatched closing tag: expected </speak> but found </Speak>'')"
    by code_simp
  show "parseSSML ''<speak><voice>'' = Inl (ValueError ''Missing closing tag for <voice>'')"
    by code_simp
qed

theorem closing_tag_must_match_witness:
  "parse_children ''</speak>'' 0 ''voice'' []
     = Inl (ValueError ''Mismatched closing tag: expected </voice> but found </speak>'') \<and>
   parse_children ''</voice>'' 0 ''voice'' [SSMLText ''x''] = Inr ([SSMLText ''x''], 8) \<and>
   parse_children ''<speak>'' 7 ''voice'' [] = Inl (ValueError ''Missing closing tag for <voice>'') \<and>
   parse_children ''</ voice >'' 0 ''voice'' [] = Inr ([], 10) \<and>
   parse_children ''<speak><a>'' 7 ''speak'' [] = Inl (ValueError ''Missing closing tag for <a>'') \<and>
   parse_element ''<speak><a>'' 0 = Inl (ValueError ''Missing closing tag for <a>'') \<and>
   parseSSML ''<speak><a>'' = Inl (ValueError ''Missing closing tag for <a>'')"
proof -
  have v: "''speak'' \<noteq> [] \<and>
      (\<forall>c\<in>set ''speak''. \<not> isspace c \<and> c \<notin> set [CHR ''/'', CHR ''>''])"
    "''voice'' \<noteq> [] \<and>
      (\<forall>c\<in>set ''voice''. \<not> isspace c \<and> c \<notin> set [CHR ''/'', CHR ''>''])"
    by (simp_all add: isspace_def)
  have l: "length ''<speak>'' \<le> 7" by simp
  note t1 = closing_tag_must_match[of "''speak''" "[]" "[]" "''voice''" "[]" "''<speak>''" 7]
  note t2 = closing_tag_must_match[of "''voice''" "[]" "[]" "''voice''" "[SSMLText ''x'']"]
  from t1 v(1) have a: "parse_children ([] @ ''</'' @ ''speak'' @ ''>'' @ []) (length ([]::string)) ''voice'' [] =
        (if ''speak'' = ''voice'' then Inr ([], length ([]::string) + length ''speak'' + 3)
         else Inl (ValueError (''Mismatched closing tag: expected </'' @ ''voice''
                                 @ ''> but found </'' @ ''speak'' @ ''>'')))"
    by blast
  from t1 l have b: "parse_children ''<speak>'' 7 ''voice'' []
      = Inl (ValueError (''Missing closing tag for <'' @ ''voice'' @ ''>''))"
    by blast
  from t2 v(2) have c: "parse_children ([] @ ''</'' @ ''voice'' @ ''>'' @ []) (length ([]::string)) ''voice'' [SSMLText ''x''] =
        (if ''voice'' = ''voice'' then Inr ([SSMLText ''x''], length ([]::string) + length ''voice'' + 3)
         else Inl (ValueError (''Mismatched closing tag: expected </'' @ ''voice''
                                 @ ''> but found </'' @ ''voice'' @ ''>'')))"
    by blast
  let ?w = "''</ voice >''"
  have hw: "\<not> length ?w \<le> 0 \<and> startswith ?w 0 ''</'' \<and>
      parse_tag_name ?w (skip_whitespace ?w (0 + 2)) = Inr (''voice'', 8) \<and>
      skip_whitespace ?w 8 < length ?w \<and> ?w ! skip_whitespace ?w 8 = CHR ''>''"
    by code_simp
  have sw: "skip_whitespace ?w 8 = 9" by code_simp
  from closing_tag_must_match[where b = "''voice''" and a = "''voice''" and cs = "[]"
      and inp = ?w and pos = 0 and ?p2.0 = 8] hw
  have "parse_children ?w 0 ''voice'' [] =
        (if ''voice'' = ''voice'' then Inr ([], skip_whitespace ?w 8 + 1)
         else Inl (ValueError (''Mismatched closing tag: expected </'' @ ''voice''
                                 @ ''> but found </'' @ ''voice'' @ ''>'')))"
    by blast
  with sw have d: "parse_children ?w 0 ''voice'' [] = Inr ([], 10)" by simp
  let ?u = "''<speak><a>''"
  let ?e = "ValueError ''Missing closing tag for <a>''"
  have h4: "\<not> length ?u \<le> 7 \<and> \<not> startswith ?u 7 ''</'' \<and> current_char ?u 7 = ''<'' \<and>
      parse_element ?u 7 = Inl ?e"
    by code_simp
  from closing_tag_must_match[where a = "''speak''" and cs = "[]" and inp = ?u and pos = 7
      and e = ?e] h4
  have e: "parse_children ?u 7 ''speak'' [] = Inl ?e" by blast
  have h5: "current_char ?u 0 = ''<'' \<and>
      parse_tag_name ?u (skip_whitespace ?u (0 + 1)) = Inr (''speak'', 6) \<and>
      parse_attributes ?u (skip_whitespace ?u 6) [] = Inr ([], 6) \<and>
      \<not> startswith ?u (skip_whitespace ?u 6) ''/>'' \<and>
      current_char ?u (skip_whitespace ?u 6) = ''>'' \<and>
      parse_children ?u (skip_whitespace ?u 6 + 1) ''speak'' [] = Inl ?e"
    by code_simp
  from closing_tag_must_match[where inp = ?u and pos = 0 and ?p2.0 = 6 and e = ?e
      and tn = "''speak''" and at = "[]" and ?p4.0 = 6] h5
  have f: "parse_element ?u 0 = Inl ?e" by blast
  have h6: "current_char ?u (skip_whitespace ?u 0) = ''<'' \<and>
      parse_element ?u (skip_whitespace ?u 0) = Inl ?e"
    by code_simp
  from closing_tag_must_match[where inp = ?u and e = ?e] h6
  have g: "parseSSML ?u = Inl ?e" by blast
  from a b c d e f g show ?thesis by simp
qed

section \<open>Self-closing tags\<close>

text \<open>
  Claim C8: \<open><n/>\<close> parses, for every tag name \<open>n\<close>, to the tag \<open>n\<close> without children, the
  same node as \<open><n></n>\<close>; with attributes, \<open>/>\<close> after them gives a tag with no children.
  \<^const>\<open>ssmlNodeToText\<close> writes every tag as an opening tag with its attributes, its children
  and the closing tag \<open></n>\<close>, a tag without children as \<open><n></n>\<close>.
\<close>

theorem self_closing_is_expanded:
  "(n \<noteq> [] \<and> (\<forall>c\<in>set n. \<not> isspace c \<and> c \<notin> set [CHR ''/'', CHR ''>'']) \<longrightarrow>
      parse_element (pre @ ''<'' @ n @ ''/>'' @ rest) (length pre)
        = Inr (SSMLTag n [] [], length pre + length n + 3) \<and>
      parse_element (pre @ ''<'' @ n @ ''></'' @ n @ ''>'' @ rest) (length pre)
        = Inr (SSMLTag n [] [], length pre + 2 * length n + 5)) \<and>
   (current_char inp pos = ''<'' \<and>
      parse_tag_name inp (skip_whitespace inp (pos + 1)) = Inr (tn, p2) \<and>
      parse_attributes inp (skip_whitespace inp p2) [] = Inr (at, p4) \<and>
      startswith inp (skip_whitespace inp p4) ''/>'' \<longrightarrow>
      parse_element inp pos = Inr (SSMLTag tn at [], skip_whitespace inp p4 + 2)) \<and>
   ssmlNodeToText (SSMLTag tn at cs) =
     ''<'' @ tn
       @ concat (map (\<lambda>(key, val). '' '' @ key @ ''='' @ [CHR 0x22] @ escapeXMLChars val
                                      @ [CHR 0x22]) at)
       @ ''>'' @ concat (map ssmlNodeToText cs) @ ''</'' @ tn @ ''>'' \<and>
   ssmlNodeToText (SSMLTag tn [] []) = ''<'' @ tn @ ''></'' @ tn @ ''>'' \<and>
   parse_element ''<br/>'' 0 = Inr (SSMLTag ''br'' [] [], 5) \<and>
   parse_element ''<br></br>'' 0 = Inr (SSMLTag ''br'' [] [], 9) \<and>
   ssmlNodeToText (SSMLTag ''br'' [] []) = ''<br></br>''"
proof (intro conjI impI)
  assume h: "n \<noteq> [] \<and> (\<forall>c\<in>set n. \<not> isspace c \<and> c \<notin> set [CHR ''/'', CHR ''>''])"
  then show "parse_element (pre @ ''<'' @ n @ ''/>'' @ rest) (length pre)
        = Inr (SSMLTag n [] [], length pre + length n + 3)"
    using parse_element_selfclosing_name[of n pre rest] by blast
  from h show "parse_element (pre @ ''<'' @ n @ ''></'' @ n @ ''>'' @ rest) (length pre)
        = Inr (SSMLTag n [] [], length pre + 2 * length n + 5)"
    using parse_element_open_close_name[of n pre rest] by blast
next
  assume "current_char inp pos = ''<'' \<and>
      parse_tag_name inp (skip_whitespace inp (pos + 1)) = Inr (tn, p2) \<and>
      parse_attributes inp (skip_whitespace inp p2) [] = Inr (at, p4) \<and>
      startswith inp (skip_whitespace inp p4) ''/>''"
  then show "parse_element inp pos = Inr (SSMLTag tn at [], skip_whitespace inp p4 + 2)"
    using parse_element_selfclose[of inp pos tn p2 at p4] by blast
next
  show "ssmlNodeToText (SSMLTag tn at cs) =
     ''<'' @ tn
       @ concat (map (\<lambda>(key, val). '' '' @ key @ ''='' @ [CHR 0x22] @ escapeXMLChars val
                                      @ [CHR 0x22]) at)
       @ ''>'' @ concat (map ssmlNodeToText cs) @ ''</'' @ tn @ ''>''"
    by (rule ssmlNodeToText_tag)
  show "ssmlNodeToText (SSMLTag tn [] []) = ''<'' @ tn @ ''></'' @ tn @ ''>''"
    by simp
  show "parse_element ''<br/>'' 0 = Inr (SSMLTag ''br'' [] [], 5)" by code_simp
  show "parse_element ''<br></br>'' 0 = Inr (SSMLTag ''br'' [] [], 9)" by code_simp
  show "ssmlNodeToText (SSMLTag ''br'' [] []) = ''<br></br>''" by simp
qed

theorem self_closing_is_expanded_witness:
  "parse_element ''<break/>b</speak>'' 0 = Inr (SSMLTag ''break'' [] [], 8) \<and>
   parse_element ''<break></break>b</speak>'' 0 = Inr (SSMLTag ''break'' [] [], 15) \<and>
   parse_element ''<br x=\"1\" />'' 0 = Inr (SSMLTag ''br'' [(''x'', ''1'')] [], 12)"
proof -
  have v: "''break'' \<noteq> [] \<and>
      (\<forall>c\<in>set ''break''. \<not> isspace c \<and> c \<notin> set [CHR ''/'', CHR ''>''])"
    by (simp add: isspace_def)
  note t = self_closing_is_expanded[of "''break''" "[]" "''b</speak>''"]
  from t v have a:
    "parse_element ([] @ ''<'' @ ''break'' @ ''/>'' @ ''b</speak>'') (length ([]::string))
        = Inr (SSMLTag ''break'' [] [], length ([]::string) + length ''break'' + 3) \<and>
     parse_element ([] @ ''<'' @ ''break'' @ ''></'' @ ''break'' @ ''>'' @ ''b</speak>'')
          (length ([]::string))
        = Inr (SSMLTag ''break'' [] [], length ([]::string) + 2 * length ''break'' + 5)"
    by blast
  let ?inp = "''<br x=\"1\" />''"
  have h: "current_char ?inp 0 = ''<'' \<and>
      parse_tag_name ?inp (skip_whitespace ?inp (0 + 1)) = Inr (''br'', 3) \<and>
      parse_attributes ?inp (skip_whitespace ?inp 3) [] = Inr ([(''x'', ''1'')], 10) \<and>
      startswith ?inp (skip_whitespace ?inp 10) ''/>''"
    by code_simp
  have s: "skip_whitespace ?inp 10 = 10" by code_simp
  from self_closing_is_expanded[where inp = ?inp and pos = 0 and tn = "''br''" and ?p2.0 = 3
      and at = "[(''x'', ''1'')]" and ?p4.0 = 10] h
  have "parse_element ?inp 0 = Inr (SSMLTag ''br'' [(''x'', ''1'')] [], skip_whitespace ?inp 10 + 2)"
    by blast
  with a s show ?thesis by simp
qed

section \<open>Termination\<close>

text \<open>
  Claim C9: the parser terminates on every input. Every argument of \<^const>\<open>parse_element\<close> and
  \<^const>\<open>parse_children\<close> is in the domain of their recursion, so no chain of recursive calls
  is infinite. An element and a list of children that are returned end behind the cursor they
  started at and within the input; an iteration of the loop of \<^const>\<open>parse_children\<close> that
  reads a child, and an iteration of the loop of \<^const>\<open>parse_attributes\<close> that reads an
  attribute, goes on at a cursor that is strictly larger; tag names, attribute names and
  attribute values that are returned consume at least one character.
\<close>

theorem parser_terminates:
  "parse_element_parse_children_dom (Inl (inp, pos)) \<and>
   parse_element_parse_children_dom (Inr (inp, pos, tag_name, children)) \<and>
   (parse_element inp pos = Inr (n, q) \<longrightarrow> pos < q \<and> q \<le> length inp) \<and>
   (parse_children inp pos tag_name children = Inr (r, q) \<longrightarrow> pos < q \<and> q \<le> length inp) \<and>
   (\<not> length inp \<le> pos \<and> \<not> startswith inp pos ''</'' \<and> current_char inp pos = ''<'' \<and>
      parse_element inp pos = Inr (child, q) \<longrightarrow>
      parse_children inp pos tag_name children
        = parse_children inp q tag_name (children @ [child]) \<and> pos < q \<and> q \<le> length inp) \<and>
   (\<not> length inp \<le> pos \<and> \<not> startswith inp pos ''</'' \<and> current_char inp pos \<noteq> ''<'' \<and>
      parse_text inp pos = (text_node, q) \<longrightarrow>
      parse_children inp pos tag_name children
        = parse_children inp q tag_name (children @ [text_node]) \<and> pos < q \<and> q \<le> length inp) \<and>
   (\<not> (length inp \<le> skip_whitespace inp pos \<or>
        current_char inp (skip_whitespace inp pos) \<in> set [''/'', ''>'']) \<and>
      parse_attr_name inp (skip_whitespace inp pos) = Inr (attr_name, p2) \<and>
      \<not> (length inp \<le> skip_whitespace inp p2 \<or> current_char inp (skip_whitespace inp p2) \<noteq> ''='') \<and>
      parse_attr_value inp (skip_whitespace inp (skip_whitespace inp p2 + 1)) = Inr (attr_value, q) \<longrightarrow>
      parse_attributes inp pos attrs
        = parse_attributes inp q (AList.update attr_name attr_value attrs) \<and>
      pos < q \<and> q \<le> length inp) \<and>
   (parse_tag_name inp pos = Inr (x, q) \<longrightarrow> pos < q \<and> q \<le> length inp) \<and>
   (parse_attr_name inp pos = Inr (x, q) \<longrightarrow> pos < q \<and> q \<le> length inp) \<and>
   (parse_attr_value inp pos = Inr (x, q) \<longrightarrow> pos < q \<and> q \<le> length inp)"
proof (intro conjI impI)
  show "parse_element_parse_children_dom (Inl (inp, pos))" by (rule dom_total)
  show "parse_element_parse_children_dom (Inr (inp, pos, tag_name, children))"
    by (rule dom_total)
next
  assume "parse_element inp pos = Inr (n, q)"
  then show "pos < q" "q \<le> length inp" using parse_element_progress by blast+
next
  assume "parse_children inp pos tag_name children = Inr (r, q)"
  then show "pos < q" "q \<le> length inp" using parse_children_progress by blast+
next
  assume a: "\<not> length inp \<le> pos \<and> \<not> startswith inp pos ''</'' \<and> current_char inp pos = ''<'' \<and>
      parse_element inp pos = Inr (child, q)"
  then show "parse_children inp pos tag_name children
        = parse_children inp q tag_name (children @ [child])"
    by (simp add: parse_children_element)
  from a show "pos < q" "q \<le> length inp" using parse_element_progress by blast+
next
  assume a: "\<not> length inp \<le> pos \<and> \<not> startswith inp pos ''</'' \<and> current_char inp pos \<noteq> ''<'' \<and>
      parse_text inp pos = (text_node, q)"
  then show "parse_children inp pos tag_name children
        = parse_children inp q tag_name (children @ [text_node])"
    using parse_children_text by blast
  from a have "pos < length inp" by simp
  with a show "pos < q" "q \<le> length inp" using parse_text_progress by blast+
next
  assume a: "\<not> (length inp \<le> skip_whitespace inp pos \<or>
        current_char inp (skip_whitespace inp pos) \<in> set [''/'', ''>'']) \<and>
      parse_attr_name inp (skip_whitespace inp pos) = Inr (attr_name, p2) \<and>
      \<not> (length inp \<le> skip_whitespace inp p2 \<or> current_char inp (skip_whitespace inp p2) \<noteq> ''='') \<and>
      parse_attr_value inp (skip_whitespace inp (skip_whitespace inp p2 + 1)) = Inr (attr_value, q)"
  then show "parse_attributes inp pos attrs
        = parse_attributes inp q (AList.update attr_name attr_value attrs)"
    using parse_attributes_step by blast
  have "pos \<le> skip_whitespace inp pos" "p2 \<le> skip_whitespace inp p2"
    "skip_whitespace inp p2 + 1 \<le> skip_whitespace inp (skip_whitespace inp p2 + 1)"
    by (rule skip_whitespace_ge)+
  moreover from a have "skip_whitespace inp pos < p2"
    using parse_attr_name_progress by blast
  moreover from a have "skip_whitespace inp (skip_whitespace inp p2 + 1) < q \<and> q \<le> length inp"
    using parse_attr_value_progress by blast
  ultimately show "pos < q" "q \<le> length inp" by linarith+
next
  assume "parse_tag_name inp pos = Inr (x, q)"
  then show "pos < q" "q \<le> length inp" using parse_tag_name_progress by blast+
next
  assume "parse_attr_name inp pos = Inr (x, q)"
  then show "pos < q" "q \<le> length inp" using parse_attr_name_progress by blast+
next
  assume "parse_attr_value inp pos = Inr (x, q)"
  then show "pos < q" "q \<le> length inp" using parse_attr_value_progress by blast+
qed

theorem parser_terminates_witness:
  "parse_element ''<a b=\"c\">x<d/></a>'' 0
     = Inr (SSMLTag ''a'' [(''b'', ''c'')] [SSMLText ''x'', SSMLTag ''d'' [] []], 18) \<and>
   (0::nat) < 18 \<and> (18::nat) \<le> length ''<a b=\"c\">x<d/></a>'' \<and>
   parse_children ''<a b=\"c\">x<d/></a>'' 9 ''a'' []
     = parse_children ''<a b=\"c\">x<d/></a>'' 10 ''a'' [SSMLText ''x''] \<and> (9::nat) < 10 \<and>
   parse_children ''<a b=\"c\">x<d/></a>'' 10 ''a'' [SSMLText ''x'']
     = parse_children ''<a b=\"c\">x<d/></a>'' 14 ''a'' [SSMLText ''x'', SSMLTag ''d'' [] []] \<and>
   (10::nat) < 14 \<and>
   parse_attributes ''<a b=\"c\">x<d/></a>'' 2 []
     = parse_attributes ''<a b=\"c\">x<d/></a>'' 8 [(''b'', ''c'')] \<and> (2::nat) < 8"
proof -
  let ?inp = "''<a b=\"c\">x<d/></a>''"
  have e: "parse_element ?inp 0
     = Inr (SSMLTag ''a'' [(''b'', ''c'')] [SSMLText ''x'', SSMLTag ''d'' [] []], 18)"
    by code_simp
  have a: "0 < (18::nat) \<and> 18 \<le> length ?inp"
    using e parser_terminates[of ?inp 0 "''''" "[]"
        "SSMLTag ''a'' [(''b'', ''c'')] [SSMLText ''x'', SSMLTag ''d'' [] []]" 18]
    by blast
  have t: "\<not> length ?inp \<le> 9 \<and> \<not> startswith ?inp 9 ''</'' \<and> current_char ?inp 9 \<noteq> ''<'' \<and>
      parse_text ?inp 9 = (SSMLText ''x'', 10)"
    by code_simp
  have b: "parse_children ?inp 9 ''a'' [] = parse_children ?inp 10 ''a'' ([] @ [SSMLText ''x''])
      \<and> 9 < (10::nat)"
    using t parser_terminates[of ?inp 9 "''a''" "[]" _ 10 _ _ "SSMLText ''x''"] by blast
  have c: "\<not> length ?inp \<le> 10 \<and> \<not> startswith ?inp 10 ''</'' \<and> current_char ?inp 10 = ''<'' \<and>
      parse_element ?inp 10 = Inr (SSMLTag ''d'' [] [], 14)"
    by code_simp
  have d: "parse_children ?inp 10 ''a'' [SSMLText ''x'']
      = parse_children ?inp 14 ''a'' ([SSMLText ''x''] @ [SSMLTag ''d'' [] []]) \<and> 10 < (14::nat)"
    using c parser_terminates[of ?inp 10 "''a''" "[SSMLText ''x'']" _ 14 _ "SSMLTag ''d'' [] []"]
    by blast
  have f: "\<not> (length ?inp \<le> skip_whitespace ?inp 2 \<or>
        current_char ?inp (skip_whitespace ?inp 2) \<in> set [''/'', ''>'']) \<and>
      parse_attr_name ?inp (skip_whitespace ?inp 2) = Inr (''b'', 4) \<and>
      \<not> (length ?inp \<le> skip_whitespace ?inp 4 \<or> current_char ?inp (skip_whitespace ?inp 4) \<noteq> ''='') \<and>
      parse_attr_value ?inp (skip_whitespace ?inp (skip_whitespace ?inp 4 + 1)) = Inr (''c'', 8)"
    by code_simp
  have g: "parse_attributes ?inp 2 []
      = parse_attributes ?inp 8 (AList.update ''b'' ''c'' []) \<and> 2 < (8::nat)"
    using f parser_terminates[of ?inp 2 _ _ _ 8 _ _ _ "''b''" 4 "''c''" "[]"] by blast
  from e a b d g show ?thesis by simp
qed

section \<open>Repeated attributes\<close>

text \<open>
  Claim C10: an opening tag whose attributes are written as the grammar has them, with or
  without whitespace around \<open>=\<close> and between attributes, parses whether or not a name is
  repeated, as a self-closing tag, as an open tag and as the root. Its attributes are those of
  \<^const>\<open>collect_attrs\<close>: the keys are the names that occur, each key is there once, and the
  value of a name is the decoded value of its last occurrence. The dictionary returned by the
  loop of \<^const>\<open>parse_attributes\<close> never holds a key twice.
\<close>

theorem duplicate_attribute_last_wins:
  "(list_all attr_ok as \<and> (as = [] \<or> a_lead (hd as) \<noteq> []) \<and> list_all isspace t \<and>
    n \<noteq> [] \<and> (\<forall>c\<in>set n. \<not> isspace c \<and> c \<notin> set [CHR ''/'', CHR ''>'']) \<longrightarrow>
      parse_element (pre @ ''<'' @ n @ concat (map attr_text as) @ t @ ''/>'' @ rest) (length pre)
        = Inr (SSMLTag n (collect_attrs [] as) [],
               length pre + length n + length (concat (map attr_text as)) + length t + 3) \<and>
      parse_element (pre @ ''<'' @ n @ concat (map attr_text as) @ t @ ''>'' @ rest) (length pre)
        = (case parse_children (pre @ ''<'' @ n @ concat (map attr_text as) @ t @ ''>'' @ rest)
                  (length (pre @ ''<'' @ n @ concat (map attr_text as) @ t @ ''>'')) n [] of
             Inl e \<Rightarrow> Inl e
           | Inr (cs, q) \<Rightarrow> Inr (SSMLTag n (collect_attrs [] as) cs, q))) \<and>
   (list_all attr_ok as \<and> (as = [] \<or> a_lead (hd as) \<noteq> []) \<and> list_all isspace t \<longrightarrow>
      parseSSML (''<speak'' @ concat (map attr_text as) @ t @ ''/>'')
        = Inr (SSMLTag ''speak'' (collect_attrs [] as) [])) \<and>
   distinct (map fst (collect_attrs [] as)) \<and>
   fst ` set (collect_attrs [] as) = a_name ` set as \<and>
   (as = as1 @ a # as2 \<and> a_name a \<notin> a_name ` set as2 \<longrightarrow>
      map_of (collect_attrs [] as) (a_name a) = Some (unescapeXMLChars (a_raw a))) \<and>
   (parse_attributes inp pos attrs = Inr (r, q) \<and> distinct (map fst attrs) \<longrightarrow>
      distinct (map fst r)) \<and>
   parseSSML ''<speak a=\"1\" b=\"2\" a=\"3\">x</speak>''
     = Inr (SSMLTag ''speak'' [(''a'', ''3''), (''b'', ''2'')] [SSMLText ''x''])"
proof (intro conjI impI)
  assume h: "list_all attr_ok as \<and> (as = [] \<or> a_lead (hd as) \<noteq> []) \<and> list_all isspace t \<and>
    n \<noteq> [] \<and> (\<forall>c\<in>set n. \<not> isspace c \<and> c \<notin> set [CHR ''/'', CHR ''>''])"
  then show "parse_element (pre @ ''<'' @ n @ concat (map attr_text as) @ t @ ''/>'' @ rest)
        (length pre)
        = Inr (SSMLTag n (collect_attrs [] as) [],
               length pre + length n + length (concat (map attr_text as)) + length t + 3)"
    using parse_element_attrs_selfclose[of n as t pre rest] by blast
  from h show "parse_element (pre @ ''<'' @ n @ concat (map attr_text as) @ t @ ''>'' @ rest)
        (length pre)
        = (case parse_children (pre @ ''<'' @ n @ concat (map attr_text as) @ t @ ''>'' @ rest)
                  (length (pre @ ''<'' @ n @ concat (map attr_text as) @ t @ ''>'')) n [] of
             Inl e \<Rightarrow> Inl e
           | Inr (cs, q) \<Rightarrow> Inr (SSMLTag n (collect_attrs [] as) cs, q))"
    using parse_element_attrs_open[of n as t pre rest] by blast
next
  assume "list_all attr_ok as \<and> (as = [] \<or> a_lead (hd as) \<noteq> []) \<and> list_all isspace t"
  then show "parseSSML (''<speak'' @ concat (map attr_text as) @ t @ ''/>'')
        = Inr (SSMLTag ''speak'' (collect_attrs [] as) [])"
    using parseSSML_speak_attrs[of as t] by blast
next
  show "distinct (map fst (collect_attrs [] as))" by (rule distinct_collect_attrs) simp
  show "fst ` set (collect_attrs [] as) = a_name ` set as" by (simp add: keys_collect_attrs)
next
  assume "as = as1 @ a # as2 \<and> a_name a \<notin> a_name ` set as2"
  then show "map_of (collect_attrs [] as) (a_name a) = Some (unescapeXMLChars (a_raw a))"
    using map_of_collect_attrs_last[of as as1 a as2 "[]"] by blast
next
  assume "parse_attributes inp pos attrs = Inr (r, q) \<and> distinct (map fst attrs)"
  then show "distinct (map fst r)" using parse_attributes_distinct by blast
next
  show "parseSSML ''<speak a=\"1\" b=\"2\" a=\"3\">x</speak>''
     = Inr (SSMLTag ''speak'' [(''a'', ''3''), (''b'', ''2'')] [SSMLText ''x''])"
    by code_simp
qed

theorem duplicate_attribute_last_wins_witness:
  "parseSSML ''<speak a=\"1\" b =\"2\"  a= \"3\"/>''
     = Inr (SSMLTag ''speak'' [(''a'', ''3''), (''b'', ''2'')] []) \<and>
   parse_element ''<voice a=\"1\" b =\"2\"  a= \"3\"/>'' 0
     = Inr (SSMLTag ''voice'' [(''a'', ''3''), (''b'', ''2'')] [], 29) \<and>
   parse_element ''<voice a=\"1\" b =\"2\"  a= \"3\"></voice>'' 0
     = Inr (SSMLTag ''voice'' [(''a'', ''3''), (''b'', ''2'')] [], 36) \<and>
   map_of [(''a'', ''3''), (''b'', ''2'')] ''a'' = Some ''3'' \<and>
   distinct (map fst [(''a'', ''3''), (''b'', ''2'')])"
proof -
  let ?a1 = "AttrSrc '' '' ''a'' [] [] ''1''"
  let ?b = "AttrSrc '' '' ''b'' '' '' [] ''2''"
  let ?a3 = "AttrSrc ''  '' ''a'' [] '' '' ''3''"
  let ?as = "[?a1, ?b, ?a3]"
  have c: "collect_attrs [] ?as = [(''a'', ''3''), (''b'', ''2'')]"
    by (simp add: collect_attrs_def unescapeXMLChars_def)
  have tx: "concat (map attr_text ?as) = '' a=\"1\" b =\"2\"  a= \"3\"''"
    by (simp add: attr_text_def)
  have h: "list_all attr_ok ?as \<and> (?as = [] \<or> a_lead (hd ?as) \<noteq> []) \<and> list_all isspace []"
    by (simp add: attr_ok_def isspace_def)
  have v: "''voice'' \<noteq> [] \<and>
      (\<forall>c\<in>set ''voice''. \<not> isspace c \<and> c \<notin> set [CHR ''/'', CHR ''>''])"
    by (simp add: isspace_def)
  from duplicate_attribute_last_wins[where as = ?as and t = "[]"] h
  have "parseSSML (''<speak'' @ concat (map attr_text ?as) @ [] @ ''/>'')
        = Inr (SSMLTag ''speak'' (collect_attrs [] ?as) [])"
    by blast
  then have r1: "parseSSML ''<speak a=\"1\" b =\"2\"  a= \"3\"/>''
     = Inr (SSMLTag ''speak'' [(''a'', ''3''), (''b'', ''2'')] [])"
    unfolding c tx by simp
  from duplicate_attribute_last_wins[where as = ?as and t = "[]" and n = "''voice''"
      and pre = "[]" and rest = "[]"] h v
  have "parse_element ([] @ ''<'' @ ''voice'' @ concat (map attr_text ?as) @ [] @ ''/>'' @ [])
          (length ([]::string))
        = Inr (SSMLTag ''voice'' (collect_attrs [] ?as) [],
               length ([]::string) + length ''voice'' + length (concat (map attr_text ?as))
                 + length ([]::string) + 3)"
    by blast
  then have r2: "parse_element ''<voice a=\"1\" b =\"2\"  a= \"3\"/>'' 0
     = Inr (SSMLTag ''voice'' [(''a'', ''3''), (''b'', ''2'')] [], 29)"
    unfolding c tx by simp
  from duplicate_attribute_last_wins[where as = ?as and t = "[]" and n = "''voice''"
      and pre = "[]" and rest = "''</voice>''"] h v
  have "parse_element ([] @ ''<'' @ ''voice'' @ concat (map attr_text ?as) @ [] @ ''>''
                         @ ''</voice>'') (length ([]::string))
        = (case parse_children ([] @ ''<'' @ ''voice'' @ concat (map attr_text ?as) @ [] @ ''>''
                                  @ ''</voice>'')
                  (length ([] @ ''<'' @ ''voice'' @ concat (map attr_text ?as) @ [] @ ''>''))
                  ''voice'' [] of
             Inl e \<Rightarrow> Inl e
           | Inr (cs, q) \<Rightarrow> Inr (SSMLTag ''voice'' (collect_attrs [] ?as) cs, q))"
    by blast
  moreover have "parse_children ''<voice a=\"1\" b =\"2\"  a= \"3\"></voice>'' 28 ''voice'' []
      = Inr ([], 36)"
    by code_simp
  ultimately have r3: "parse_element ''<voice a=\"1\" b =\"2\"  a= \"3\"></voice>'' 0
     = Inr (SSMLTag ''voice'' [(''a'', ''3''), (''b'', ''2'')] [], 36)"
    unfolding c tx by (simp add: eval_nat_numeral)
  have "?as = [?a1, ?b] @ ?a3 # [] \<and> a_name ?a3 \<notin> a_name ` set []" by simp
  with duplicate_attribute_last_wins[where as = ?as and ?as1.0 = "[?a1, ?b]" and a = ?a3
      and ?as2.0 = "[]"]
  have "map_of (collect_attrs [] ?as) (a_name ?a3) = Some (unescapeXMLChars (a_raw ?a3))"
    by blast
  then have r4: "map_of [(''a'', ''3''), (''b'', ''2'')] ''a'' = Some ''3''"
    unfolding c by (simp add: unescapeXMLChars_def)
  have "parse_attributes ''<speak a=\"1\" a=\"3\" b=\"2\">'' 6 []
      = Inr ([(''a'', ''3''), (''b'', ''2'')], 24) \<and> distinct (map fst ([]::(string \<times> string) list))"
    by code_simp
  with duplicate_attribute_last_wins[where inp = "''<speak a=\"1\" a=\"3\" b=\"2\">''"
      and pos = 6 and attrs = "[]" and r = "[(''a'', ''3''), (''b'', ''2'')]" and q = 24]
  have r5: "distinct (map fst [(''a'', ''3''), (''b'', ''2'')])" by blast
  from r1 r2 r3 r4 r5 show ?thesis by blast
qed

end
